theory Spec2Isabelle
  imports Complex_Main "HOL-Library.AList"
begin

section \<open>Data model of src/vision-simulation.js\<close>

text \<open>
  JavaScript numbers are modelled by exact rationals: the grid dimensions are
  \<open>worldWidth / 64 + 1\<close>, which need not be an integer; on an integral grid the grid
  coordinates are integers and the tree origins half-integers (\<open>pt.x - 0.5\<close>). NaN, the
  infinities and rounding are outside the model.

  A coordinate key is the string \<open>x + "," + y\<close>. The decimal text of a number determines
  the number and contains no comma, so the string and the coordinate pair determine each
  other; a key is represented by the pair.
\<close>

type_synonym key = "rat \<times> rat"

record pt =
  pt_x :: rat
  pt_y :: rat
  pt_key :: key

record zpt = pt +
  pt_z :: int

text \<open>The array \<open>['tree', x, y, Math.SQRT2]\<close> stored in the tree-wall caches.\<close>

datatype wall_radius = SQRT2

datatype wall = Wall (w_id: string) (w_x: rat) (w_y: rat) (w_r: wall_radius)

datatype error = TypeError | FovError

text \<open>
  \<open>this.walls\<close> is a reference: \<open>initialize\<close> gives it an object of its own,
  \<open>updateVisibility\<close> makes it an alias of \<open>this.treeWalls[this.elevation]\<close>.
\<close>

datatype walls_ref = OwnEmpty | TreeWallsOf int

text \<open>An RGB pixel \<open>p\<close>: \<open>p[0]\<close>, \<open>p[1]\<close>, \<open>p[2]\<close>.\<close>

type_synonym pixel = "int \<times> int \<times> int"

type_synonym image = "int \<Rightarrow> int \<Rightarrow> pixel"

text \<open>
  Objects used as dictionaries are maps. The three that the code enumerates (\<open>tree\<close> in
  \<open>setTreeWalls\<close>, the elevation grid in \<open>generateElevationWalls\<close>, \<open>lights\<close> in
  \<open>Object.keys\<close>) are association lists in insertion order, written with
  \<open>AList.update\<close>: an existing key keeps its place, a new key goes to the end.
\<close>

record config =
  radius :: rat
  worldMinX :: rat
  worldMinY :: rat
  worldMaxX :: rat
  worldMaxY :: rat
  worldWidth :: rat
  worldHeight :: rat
  gridWidth :: rat
  gridHeight :: rat
  ready :: bool
  elevation :: "int option"
  lightArea :: "nat option"

text \<open>
  \<open>config\<close> holds the fields the constructor assigns, and \<open>elevation\<close> and
  \<open>lightArea\<close>, which neither the constructor nor \<open>initialize\<close> assigns: they are
  undefined until the first \<open>updateVisibility\<close> and are kept when an instance is
  initialized again. \<open>simulation\<close> adds the fields that \<open>initialize\<close> assigns (they do
  not exist on an object before its first \<open>initialize\<close>). \<open>None\<close> is \<open>null\<close> or
  \<open>undefined\<close>.
\<close>

record simulation = config +
  grid :: "pt list list"
  gridnav :: "(key \<rightharpoonup> pt) option"
  ent_fow_blocker_node :: "(key \<rightharpoonup> pt) option"
  tools_no_wards :: "(key \<rightharpoonup> pt) option"
  elevationValues :: "int list"
  elevationGrid :: "(key \<times> zpt) list option"
  elevationWalls :: "int \<rightharpoonup> (key \<rightharpoonup> zpt)"
  treeWalls :: "int \<rightharpoonup> (key \<rightharpoonup> wall list)"
  tree :: "(key \<times> pt) list"
  tree_blocks :: "key \<rightharpoonup> pt list"
  tree_relations :: "key \<rightharpoonup> pt list"
  tree_elevations :: "key \<rightharpoonup> int"
  tree_state :: "key \<rightharpoonup> bool"
  walls :: walls_ref
  lights :: "(key \<times> int) list"
  area :: int

section \<open>Key and point conversions\<close>

definition xy2key :: "rat \<Rightarrow> rat \<Rightarrow> key" where
  "xy2key x y = (x, y)"

definition xy2pt :: "rat \<Rightarrow> rat \<Rightarrow> pt" where
  "xy2pt x y = \<lparr>pt_x = x, pt_y = y, pt_key = (x, y)\<rparr>"

definition pt2key :: "'a pt_scheme \<Rightarrow> key" where
  "pt2key p = (pt_x p, pt_y p)"


text \<open>
  \<open>key2pt_cache\<close> is a variable of the module, not a field of an instance: every
  function that touches it takes the cache and returns it.
\<close>

type_synonym cache = "key \<rightharpoonup> pt"


section \<open>JavaScript idioms\<close>

text \<open>\<open>a || b\<close> for an optional number \<open>a\<close>: \<open>undefined\<close> and \<open>0\<close> are falsy.\<close>

definition js_or :: "rat option \<Rightarrow> rat \<Rightarrow> rat" where
  "js_or a b = (case a of None \<Rightarrow> b | Some v \<Rightarrow> if v = 0 then b else v)"

text \<open>Truthiness of an optional boolean (\<open>undefined\<close> is falsy).\<close>

definition truthy :: "bool option \<Rightarrow> bool" where
  "truthy b = (case b of None \<Rightarrow> False | Some v \<Rightarrow> v)"

text \<open>\<open>a < b\<close> where \<open>b\<close> may be \<open>undefined\<close>: a comparison with \<open>undefined\<close> is false.\<close>

definition js_lt :: "int \<Rightarrow> int option \<Rightarrow> bool" where
  "js_lt a b = (case b of None \<Rightarrow> False | Some v \<Rightarrow> a < v)"

text \<open>
  \<open>forEach\<close> and \<open>for\<close> loops whose body may throw: the loop stops at the first
  exception, which carries the state reached.
\<close>

fun forEach :: "('a \<Rightarrow> 's \<Rightarrow> ('e \<times> 's) + 's) \<Rightarrow> 'a list \<Rightarrow> 's \<Rightarrow> ('e \<times> 's) + 's" where
  "forEach f [] s = Inr s"
| "forEach f (x # xs) s = (case f x s of Inl e \<Rightarrow> Inl e | Inr s' \<Rightarrow> forEach f xs s')"

section \<open>Wall generation\<close>

text \<open>The eight offsets \<open>(i, j)\<close> of the \<open>adjLoop\<close>, in the order of the two loops.\<close>

definition adj_offsets :: "(rat \<times> rat) list" where
  "adj_offsets = [(-1, -1), (-1, 0), (-1, 1), (0, -1), (0, 1), (1, -1), (1, 0), (1, 1)]"

definition has_low_neighbour :: "(key \<times> zpt) list \<Rightarrow> int \<Rightarrow> zpt \<Rightarrow> bool" where
  "has_low_neighbour data elev p =
     list_ex (\<lambda>(i, j). case map_of data (pt_x p + i, pt_y p + j) of
                          None \<Rightarrow> False
                        | Some q \<Rightarrow> pt_z q \<le> elev) adj_offsets"

definition generateElevationWalls :: "(key \<times> zpt) list \<Rightarrow> int \<Rightarrow> (key \<rightharpoonup> zpt)" where
  "generateElevationWalls data elev =
     fold (\<lambda>(k, p) walls.
             if pt_z p > elev \<and> has_low_neighbour data elev p then walls(pt_key p \<mapsto> p)
             else walls)
          data Map.empty"

definition tree_wall :: "'a pt_scheme \<Rightarrow> wall" where
  "tree_wall t = Wall ''tree'' (pt_x t) (pt_y t) SQRT2"

text \<open>\<open>obj[k] = (obj[k] || []).concat([w])\<close>; an array, even an empty one, is truthy.\<close>

definition concat_wall :: "wall \<Rightarrow> key \<Rightarrow> (key \<rightharpoonup> wall list) \<Rightarrow> (key \<rightharpoonup> wall list)" where
  "concat_wall w k obj = obj(k \<mapsto> (case obj k of None \<Rightarrow> [] | Some ws \<Rightarrow> ws) @ [w])"

definition setTreeWalls_body ::
  "int \<Rightarrow> (key \<rightharpoonup> int) \<Rightarrow> (key \<rightharpoonup> bool) \<Rightarrow> (key \<rightharpoonup> pt list) \<Rightarrow> key \<times> pt \<Rightarrow>
   (key \<rightharpoonup> wall list) \<Rightarrow> (error \<times> (key \<rightharpoonup> wall list)) + (key \<rightharpoonup> wall list)" where
  "setTreeWalls_body elev tree_elevs tree_st tree_blks it obj =
     (case it of (i, t) \<Rightarrow>
        if js_lt elev (tree_elevs i) then
          if truthy (tree_st i) then
            (case tree_blks i of
               None \<Rightarrow> Inl (TypeError, obj)
             | Some blks \<Rightarrow>
                 Inr (fold (\<lambda>p. concat_wall (tree_wall t) (xy2key (pt_x p) (pt_y p))) blks obj))
          else Inr obj
        else Inr obj)"

definition setTreeWalls ::
  "(key \<rightharpoonup> wall list) \<Rightarrow> int \<Rightarrow> (key \<times> pt) list \<Rightarrow> (key \<rightharpoonup> int) \<Rightarrow> (key \<rightharpoonup> bool) \<Rightarrow>
   (key \<rightharpoonup> pt list) \<Rightarrow> (error \<times> (key \<rightharpoonup> wall list)) + (key \<rightharpoonup> wall list)" where
  "setTreeWalls obj elev trees tree_elevs tree_st tree_blks =
     forEach (setTreeWalls_body elev tree_elevs tree_st tree_blks) trees obj"

section \<open>Construction and initialization\<close>

definition VisionSimulation :: "rat \<Rightarrow> rat \<Rightarrow> rat \<Rightarrow> rat \<Rightarrow> rat option \<Rightarrow> config" where
  "VisionSimulation wMinX wMinY wMaxX wMaxY opts_radius =
     \<lparr>radius = js_or opts_radius 25,
      worldMinX = wMinX, worldMinY = wMinY, worldMaxX = wMaxX, worldMaxY = wMaxY,
      worldWidth = wMaxX - wMinX, worldHeight = wMaxY - wMinY,
      gridWidth = (wMaxX - wMinX) / 64 + 1,
      gridHeight = (wMaxY - wMinY) / 64 + 1,
      ready = False, elevation = None, lightArea = None\<rparr>"

definition ImageXYtoGridXY :: "'a config_scheme \<Rightarrow> rat \<Rightarrow> rat \<Rightarrow> pt" where
  "ImageXYtoGridXY s x y =
     (let gY = gridHeight s - y - 1 in \<lparr>pt_x = x, pt_y = gY, pt_key = (x, gY)\<rparr>)"

text \<open>
  Modelled from the spec: the pixel scan \<open>image.scan(x, y, w, h, f)\<close> of the Jimp library,
  which is not among the sources. The spec's terrain data source "provides a pixel-scan over
  a rectangular sub-region of a decoded raster, invoking a handler with (localX, localY,
  channelValues) for each cell"; non-integral dimensions are truncated. \<open>scan_cells w h\<close>
  are the cells of a rectangle of \<open>w\<close> columns and \<open>h\<close> rows, row by row, counted from its
  first column and row.
\<close>

definition scan_cells :: "int \<Rightarrow> int \<Rightarrow> (int \<times> int) list" where
  "scan_cells w h = concat (map (\<lambda>y. map (\<lambda>x. (x, y)) [0..w - 1]) [0..h - 1])"

text \<open>
  \<open>ImageHandler.scan\<close> (its source is quoted in src/testing-assets/README.md): the pixel
  in column \<open>x\<close> and row \<open>y\<close> of the image is handed to the handler as
  \<open>pixelHandler(x - offset, y, [r, g, b], grid)\<close>, with the offset as it was passed. The
  pixel columns are integers and start at the truncated offset, so the local column
  \<open>x - offset\<close> is an integer only when the offset is one. The decoded raster is the
  parameter \<open>img\<close>; the handler's state \<open>'st\<close> is the instance together with the grid
  object it fills.
\<close>

definition scan ::
  "image \<Rightarrow> rat \<Rightarrow> rat \<Rightarrow> rat \<Rightarrow> (rat \<Rightarrow> rat \<Rightarrow> pixel \<Rightarrow> 'st \<Rightarrow> 'st) \<Rightarrow> 'st \<Rightarrow> 'st" where
  "scan img offset width height pixelHandler st =
     fold (\<lambda>(x, y). pixelHandler (of_int (\<lfloor>offset\<rfloor> + x) - offset) (of_int y)
                       (img (\<lfloor>offset\<rfloor> + x) y))
          (scan_cells \<lfloor>width\<rfloor> \<lfloor>height\<rfloor>) st"

definition blackPixelHandler ::
  "rat \<Rightarrow> rat \<Rightarrow> pixel \<Rightarrow> simulation \<times> (key \<rightharpoonup> pt) \<Rightarrow> simulation \<times> (key \<rightharpoonup> pt)" where
  "blackPixelHandler x y p st =
     (case st of (s, g) \<Rightarrow>
        let q = ImageXYtoGridXY s x y in
        if fst p = 0 then (s, g(xy2key (pt_x q) (pt_y q) \<mapsto> q)) else (s, g))"

definition elevationPixelHandler ::
  "rat \<Rightarrow> rat \<Rightarrow> pixel \<Rightarrow> simulation \<times> (key \<times> zpt) list \<Rightarrow> simulation \<times> (key \<times> zpt) list" where
  "elevationPixelHandler x y p st =
     (case st of (s, g) \<Rightarrow>
        let q = ImageXYtoGridXY s x y;
            qz = \<lparr>pt_x = pt_x q, pt_y = pt_y q, pt_key = pt_key q, pt_z = fst p\<rparr>;
            g' = AList.update (xy2key (pt_x q) (pt_y q)) qz g
        in if fst p \<notin> set (elevationValues s)
           then (s\<lparr>elevationValues := elevationValues s @ [fst p]\<rparr>, g')
           else (s, g'))"

text \<open>
  The four corners, in the order of the two nested \<open>[Math.floor, Math.ceil].forEach\<close>.
\<close>

definition tree_corners :: "pt \<Rightarrow> pt list" where
  "tree_corners treeOrigin =
     [xy2pt (of_int \<lfloor>pt_x treeOrigin\<rfloor>) (of_int \<lfloor>pt_y treeOrigin\<rfloor>),
      xy2pt (of_int \<lfloor>pt_x treeOrigin\<rfloor>) (of_int \<lceil>pt_y treeOrigin\<rceil>),
      xy2pt (of_int \<lceil>pt_x treeOrigin\<rceil>) (of_int \<lfloor>pt_y treeOrigin\<rfloor>),
      xy2pt (of_int \<lceil>pt_x treeOrigin\<rceil>) (of_int \<lceil>pt_y treeOrigin\<rceil>)]"

definition add_corner :: "pt \<Rightarrow> pt \<Rightarrow> simulation \<Rightarrow> simulation" where
  "add_corner treeOrigin treeCorner s =
     s\<lparr>tree_relations := (tree_relations s)(pt_key treeCorner \<mapsto>
          (case tree_relations s (pt_key treeCorner) of None \<Rightarrow> [] | Some l \<Rightarrow> l) @ [treeOrigin]),
       tree_blocks := (tree_blocks s)(pt_key treeOrigin \<mapsto>
          (case tree_blocks s (pt_key treeOrigin) of None \<Rightarrow> [] | Some l \<Rightarrow> l) @ [treeCorner])\<rparr>"

definition treeElevationPixelHandler ::
  "rat \<Rightarrow> rat \<Rightarrow> pixel \<Rightarrow> simulation \<times> (key \<rightharpoonup> pt) \<Rightarrow> simulation \<times> (key \<rightharpoonup> pt)" where
  "treeElevationPixelHandler x y p st =
     (case st of (s, g) \<Rightarrow>
        let q = ImageXYtoGridXY s x y in
        if fst (snd p) = 0 \<and> snd (snd p) = 0 then
          let treeOrigin = xy2pt (pt_x q - 1 / 2) (pt_y q - 1 / 2);
              treeElevation = fst p + 40;
              kC = pt_key treeOrigin;
              s1 = s\<lparr>tree := AList.update kC treeOrigin (tree s),
                     tree_elevations := (tree_elevations s)(kC \<mapsto> treeElevation),
                     tree_blocks := (tree_blocks s)(kC \<mapsto> []),
                     tree_state := (tree_state s)(kC \<mapsto> True)\<rparr>
          in (fold (add_corner treeOrigin) (tree_corners treeOrigin) s1, g)
        else (s, g))"

definition parseImage ::
  "image \<Rightarrow> rat \<Rightarrow> rat \<Rightarrow> rat \<Rightarrow> (rat \<Rightarrow> rat \<Rightarrow> pixel \<Rightarrow> simulation \<times> 'g \<Rightarrow> simulation \<times> 'g) \<Rightarrow>
   'g \<Rightarrow> simulation \<Rightarrow> simulation \<times> 'g" where
  "parseImage img offset width height pixelHandler empty_grid s =
     scan img offset width height pixelHandler (s, empty_grid)"

text \<open>The synchronous part of \<open>initialize\<close> (lines 228 to 244).\<close>

definition initialize_begin :: "'a config_scheme \<Rightarrow> simulation" where
  "initialize_begin c =
     \<lparr>radius = radius c,
      worldMinX = worldMinX c, worldMinY = worldMinY c,
      worldMaxX = worldMaxX c, worldMaxY = worldMaxY c,
      worldWidth = worldWidth c, worldHeight = worldHeight c,
      gridWidth = gridWidth c, gridHeight = gridHeight c,
      ready = False, elevation = elevation c, lightArea = lightArea c,
      grid = [], gridnav = None, ent_fow_blocker_node = None, tools_no_wards = None,
      elevationValues = [], elevationGrid = None,
      elevationWalls = Map.empty, treeWalls = Map.empty,
      tree = [], tree_blocks = Map.empty, tree_relations = Map.empty,
      tree_elevations = Map.empty, tree_state = Map.empty,
      walls = OwnEmpty, lights = [], area = 0\<rparr>"

text \<open>
  One round of \<open>elevationValues.forEach\<close> in the load callback: the new object is stored
  in \<open>treeWalls[elevation]\<close> first and filled in place, so an exception leaves it there
  partly filled.
\<close>

definition init_treeWalls :: "int \<Rightarrow> simulation \<Rightarrow> (error \<times> simulation) + simulation" where
  "init_treeWalls elev s =
     (case setTreeWalls Map.empty elev (tree s) (tree_elevations s) (tree_state s) (tree_blocks s) of
        Inl (e, obj) \<Rightarrow> Inl (e, s\<lparr>treeWalls := (treeWalls s)(elev \<mapsto> obj)\<rparr>)
      | Inr obj \<Rightarrow> Inr (s\<lparr>treeWalls := (treeWalls s)(elev \<mapsto> obj)\<rparr>))"

text \<open>The points of the \<open>cache prime\<close> loops: column \<open>i\<close> holds \<open>xy2pt(i, j)\<close> for every row.\<close>

definition prime_points :: "rat \<Rightarrow> rat \<Rightarrow> pt list list" where
  "prime_points w h =
     map (\<lambda>i. map (\<lambda>j. xy2pt (of_int i) (of_int j)) [0..\<lceil>h\<rceil> - 1]) [0..\<lceil>w\<rceil> - 1]"

definition prime_cache :: "pt list list \<Rightarrow> cache \<Rightarrow> cache" where
  "prime_cache pts key2pt_cache = fold (\<lambda>p c. c(pt_key p \<mapsto> p)) (concat pts) key2pt_cache"

text \<open>The five \<open>parseImage\<close> calls of the load callback (lines 252 to 256).\<close>

definition initialize_parse :: "image \<Rightarrow> simulation \<Rightarrow> simulation" where
  "initialize_parse img s0 =
     (let w = gridWidth s0; h = gridHeight s0;
          r1 = parseImage img (w * 2) w h blackPixelHandler Map.empty s0;
          s1 = (fst r1)\<lparr>gridnav := Some (snd r1)\<rparr>;
          r2 = parseImage img (w * 3) w h blackPixelHandler Map.empty s1;
          s2 = (fst r2)\<lparr>ent_fow_blocker_node := Some (snd r2)\<rparr>;
          r3 = parseImage img (w * 4) w h blackPixelHandler Map.empty s2;
          s3 = (fst r3)\<lparr>tools_no_wards := Some (snd r3)\<rparr>;
          r4 = parseImage img w w h treeElevationPixelHandler Map.empty s3;
          r5 = parseImage img 0 w h elevationPixelHandler [] (fst r4)
      in (fst r5)\<lparr>elevationGrid := Some (snd r5)\<rparr>)"

text \<open>The body of the load callback when the image has loaded (lines 250 to 276).\<close>

definition initialize_loaded ::
  "image \<Rightarrow> simulation \<times> cache \<Rightarrow> (error \<times> simulation \<times> cache) + simulation \<times> cache" where
  "initialize_loaded img st =
     (case forEach init_treeWalls (elevationValues (initialize_parse img (fst st)))
             (initialize_parse img (fst st)) of
        Inl es \<Rightarrow> Inl (fst es, snd es, snd st)
      | Inr s6 \<Rightarrow>
          Inr (s6\<lparr>grid := prime_points (gridWidth s6) (gridHeight s6), ready := True\<rparr>,
               prime_cache (prime_points (gridWidth s6) (gridHeight s6)) (snd st)))"

text \<open>
  \<open>initialize\<close>: \<open>ImageHandler.load\<close> (quoted in src/testing-assets/README.md) calls
  back with an error when the Jimp library, which is not among the sources, cannot read the
  image (\<open>None\<close>, the callback's \<open>err\<close>), and without one when it has decoded it.
\<close>

definition initialize ::
  "'a config_scheme \<Rightarrow> image option \<Rightarrow> cache \<Rightarrow> (error \<times> simulation \<times> cache) + simulation \<times> cache" where
  "initialize c loaded key2pt_cache =
     (case loaded of
        None \<Rightarrow> Inr (initialize_begin c, key2pt_cache)
      | Some img \<Rightarrow> initialize_loaded img (initialize_begin c, key2pt_cache))"

section \<open>Queries\<close>

definition setRadius :: "simulation \<Rightarrow> rat \<Rightarrow> simulation" where
  "setRadius s r = s\<lparr>radius := r\<rparr>"

text \<open>
  \<open>lightPassesCallback\<close>: the operator \<open>in\<close> throws a TypeError on \<open>null\<close> and
  \<open>undefined\<close>; \<open>&&\<close> evaluates from the left and stops at the first false operand.
\<close>

definition lightPassesCallback :: "simulation \<Rightarrow> rat \<Rightarrow> rat \<Rightarrow> error + bool" where
  "lightPassesCallback s x y =
     (let k = (x, y) in
      case (case elevation s of None \<Rightarrow> None | Some e \<Rightarrow> elevationWalls s e) of
        None \<Rightarrow> Inl TypeError
      | Some ew \<Rightarrow>
          if ew k \<noteq> None then Inr False
          else (case ent_fow_blocker_node s of
                  None \<Rightarrow> Inl TypeError
                | Some fb \<Rightarrow>
                    if fb k \<noteq> None then Inr False
                    else (case (case elevation s of None \<Rightarrow> None | Some e \<Rightarrow> treeWalls s e) of
                            None \<Rightarrow> Inl TypeError
                          | Some tw \<Rightarrow>
                              Inr (\<not> (case tw k of None \<Rightarrow> False | Some ws \<Rightarrow> length ws > 0)))))"

text \<open>
  The field-of-view engine \<open>ROT.FOV.PreciseShadowcasting\<close> (src/rot6.js) is not among the
  sources. \<open>updateVisibility\<close> takes it as a parameter: given \<open>this.fov.walls\<close>, the
  light-passes callback and \<open>compute\<close>'s arguments, it yields the calls
  \<open>callback(x2, y2, r, vis)\<close> it makes, in order, and then a return value or an exception.
\<close>

record fov_result =
  fov_visits :: "(rat \<times> rat \<times> rat \<times> rat) list"
  fov_return :: "error + int"

type_synonym fov =
  "(key \<rightharpoonup> wall list) option \<Rightarrow> (rat \<Rightarrow> rat \<Rightarrow> error + bool) \<Rightarrow> rat \<Rightarrow> rat \<Rightarrow> rat \<Rightarrow> fov_result"

text \<open>
  \<open>a > b\<close> where either side may be \<open>undefined\<close>: a comparison with \<open>undefined\<close>
  is false.
\<close>

definition js_gt :: "int option \<Rightarrow> int option \<Rightarrow> bool" where
  "js_gt a b = (case a of None \<Rightarrow> False | Some v \<Rightarrow> (case b of None \<Rightarrow> False | Some w \<Rightarrow> v > w))"

text \<open>The loop over \<open>treePts\<close> in the callback of \<open>updateVisibility\<close>.\<close>

fun treeBlocking_loop :: "simulation \<Rightarrow> pt list \<Rightarrow> bool" where
  "treeBlocking_loop s [] = False"
| "treeBlocking_loop s (treePt # treePts) =
     (if truthy (tree_state s (pt_key treePt)) \<and>
         js_gt (tree_elevations s (pt_key treePt)) (elevation s)
      then True else treeBlocking_loop s treePts)"

definition treeBlocking_at :: "simulation \<Rightarrow> key \<Rightarrow> bool" where
  "treeBlocking_at s k =
     (case tree_relations s k of None \<Rightarrow> False | Some treePts \<Rightarrow> treeBlocking_loop s treePts)"

text \<open>
  The function passed to \<open>compute\<close>, applied to one call \<open>(x2, y2, r, vis)\<close>:
  \<open>v = (x2, y2, r, vis)\<close>.
\<close>

definition visibility_callback ::
  "rat \<times> rat \<times> rat \<times> rat \<Rightarrow> simulation \<Rightarrow> (error \<times> simulation) + simulation" where
  "visibility_callback v s =
     (case elevationGrid s of
        None \<Rightarrow> Inl (TypeError, s)
      | Some eg \<Rightarrow>
          if map_of eg (xy2key (fst v) (fst (snd v))) = None then Inr s
          else if snd (snd (snd v)) = 1 then
            (case ent_fow_blocker_node s of
               None \<Rightarrow> Inl (TypeError, s)
             | Some fb \<Rightarrow>
                 if fb (xy2key (fst v) (fst (snd v))) = None \<and>
                    \<not> treeBlocking_at s (xy2key (fst v) (fst (snd v)))
                 then Inr (s\<lparr>lights := AList.update (xy2key (fst v) (fst (snd v))) 255 (lights s)\<rparr>)
                 else Inr s)
          else Inr s)"

text \<open>
  Lines 362 to 371 of \<open>updateVisibility\<close>, for the origin's grid entry of elevation
  \<open>elev\<close>: the assignments made before \<open>compute\<close> runs.
\<close>

definition updateVisibility_begin :: "simulation \<Rightarrow> (key \<times> zpt) list \<Rightarrow> int \<Rightarrow> simulation" where
  "updateVisibility_begin s eg elev =
     s\<lparr>elevation := Some elev, walls := TreeWallsOf elev,
       elevationWalls :=
         (if elevationWalls s elev = None
          then (elevationWalls s)(elev \<mapsto> generateElevationWalls eg elev)
          else elevationWalls s),
       lights := []\<rparr>"

definition updateVisibility ::
  "fov \<Rightarrow> simulation \<Rightarrow> rat \<Rightarrow> rat \<Rightarrow> rat option \<Rightarrow> (error \<times> simulation) + simulation" where
  "updateVisibility compute s gX gY rad =
     (case elevationGrid s of
        None \<Rightarrow> Inl (TypeError, s)
      | Some eg \<Rightarrow>
          (case map_of eg (xy2key gX gY) of
             None \<Rightarrow> Inl (TypeError, s)
           | Some p \<Rightarrow>
               (case forEach visibility_callback
                       (fov_visits
                          (compute (treeWalls s (pt_z p))
                             (lightPassesCallback (updateVisibility_begin s eg (pt_z p)))
                             gX gY (js_or rad (radius s))))
                       (updateVisibility_begin s eg (pt_z p)) of
                  Inl es \<Rightarrow> Inl es
                | Inr s4 \<Rightarrow>
                    (case fov_return
                            (compute (treeWalls s (pt_z p))
                               (lightPassesCallback (updateVisibility_begin s eg (pt_z p)))
                               gX gY (js_or rad (radius s))) of
                       Inl e \<Rightarrow> Inl (e, s4)
                     | Inr a \<Rightarrow> Inr (s4\<lparr>area := a, lightArea := Some (length (lights s4))\<rparr>)))))"

text \<open>The loop over \<open>treePts\<close> in \<open>isValidXY\<close>.\<close>

fun standing_loop :: "simulation \<Rightarrow> pt list \<Rightarrow> bool" where
  "standing_loop s [] = False"
| "standing_loop s (treePt # treePts) =
     (if truthy (tree_state s (pt_key treePt)) then True else standing_loop s treePts)"

text \<open>\<open>!dict[key]\<close> for a dictionary that may be \<open>null\<close>, where reading a key throws.\<close>

definition absent_in :: "(key \<rightharpoonup> pt) option \<Rightarrow> key \<Rightarrow> error + bool" where
  "absent_in d k = (case d of None \<Rightarrow> Inl TypeError | Some m \<Rightarrow> Inr (m k = None))"

definition isValidXY ::
  "simulation \<Rightarrow> rat \<Rightarrow> rat \<Rightarrow> bool \<Rightarrow> bool \<Rightarrow> bool \<Rightarrow> error + bool" where
  "isValidXY s x y bCheckGridnav bCheckToolsNoWards bCheckTreeState =
     (if \<not> ready s then Inr False
      else if \<not> (x \<ge> 0 \<and> x < gridWidth s \<and> y \<ge> 0 \<and> y < gridHeight s) then Inr False
      else
        (case (if bCheckGridnav then absent_in (gridnav s) (xy2key x y) else Inr True) of
           Inl e \<Rightarrow> Inl e
         | Inr False \<Rightarrow> Inr False
         | Inr True \<Rightarrow>
             (case (if bCheckToolsNoWards then absent_in (tools_no_wards s) (xy2key x y)
                    else Inr True) of
                Inl e \<Rightarrow> Inl e
              | Inr False \<Rightarrow> Inr False
              | Inr True \<Rightarrow>
                  Inr (\<not> bCheckTreeState \<or>
                       \<not> (case tree_relations s (xy2key x y) of
                            None \<Rightarrow> False
                          | Some treePts \<Rightarrow> standing_loop s treePts)))))"

section \<open>Tree toggling\<close>

text \<open>
  The backwards loop \<open>for (j = length - 1; j >= 0; j--)\<close> that splices every descriptor
  of the tree \<open>pt\<close> out of one array; the second argument counts the indices still to visit.
\<close>

fun splice_loop :: "pt \<Rightarrow> nat \<Rightarrow> wall list \<Rightarrow> wall list" where
  "splice_loop p 0 ws = ws"
| "splice_loop p (Suc j) ws =
     splice_loop p j
       (if pt_x p = w_x (ws ! j) \<and> pt_y p = w_y (ws ! j) then take j ws @ drop (Suc j) ws else ws)"

definition remove_walls ::
  "pt \<Rightarrow> pt \<Rightarrow> (key \<rightharpoonup> wall list) \<Rightarrow> (error \<times> (key \<rightharpoonup> wall list)) + (key \<rightharpoonup> wall list)" where
  "remove_walls p ptB tw =
     (case tw (pt_key ptB) of
        None \<Rightarrow> Inl (TypeError, tw)
      | Some ws \<Rightarrow> Inr (tw(pt_key ptB \<mapsto> splice_loop p (length ws) ws)))"

definition insert_wall :: "pt \<Rightarrow> pt \<Rightarrow> (key \<rightharpoonup> wall list) \<Rightarrow> (key \<rightharpoonup> wall list)" where
  "insert_wall p ptB tw = concat_wall (tree_wall p) (pt_key ptB) tw"

text \<open>
  The body of \<open>elevationValues.forEach\<close> in \<open>toggleTree\<close>, for the tree \<open>pt\<close> whose
  state has just been flipped. The arrays are patched in place inside
  \<open>treeWalls[elevation]\<close>, so an exception leaves the patches made so far.
\<close>

definition toggle_elevation :: "pt \<Rightarrow> int \<Rightarrow> simulation \<Rightarrow> (error \<times> simulation) + simulation" where
  "toggle_elevation p elev s =
     (if js_lt elev (tree_elevations s (pt_key p)) then
        (case tree_blocks s (pt_key p) of
           None \<Rightarrow> Inl (TypeError, s)
         | Some blks \<Rightarrow>
             (case treeWalls s elev of
                None \<Rightarrow> Inl (TypeError, s)
              | Some tw \<Rightarrow>
                  (case forEach (remove_walls p) blks tw of
                     Inl etw \<Rightarrow> Inl (fst etw, s\<lparr>treeWalls := (treeWalls s)(elev \<mapsto> snd etw)\<rparr>)
                   | Inr tw1 \<Rightarrow>
                       Inr (s\<lparr>treeWalls := (treeWalls s)(elev \<mapsto>
                              (if truthy (tree_state s (pt_key p))
                               then fold (insert_wall p) blks tw1 else tw1))\<rparr>))))
      else Inr s)"

definition toggle_one :: "pt \<Rightarrow> simulation \<Rightarrow> (error \<times> simulation) + simulation" where
  "toggle_one p s =
     forEach (toggle_elevation p) (elevationValues s)
       (s\<lparr>tree_state := (tree_state s)(pt_key p \<mapsto> \<not> truthy (tree_state s (pt_key p)))\<rparr>)"

definition toggleTree ::
  "simulation \<Rightarrow> rat \<Rightarrow> rat \<Rightarrow> (error \<times> simulation) + bool \<times> simulation" where
  "toggleTree s x y =
     (case tree_relations s (xy2key x y) of
        None \<Rightarrow> Inr (False, s)
      | Some treePts \<Rightarrow>
          (case forEach toggle_one treePts s of
             Inl es \<Rightarrow> Inl es
           | Inr s' \<Rightarrow> Inr (True, s')))"

section \<open>Sequences of calls on a loaded instance\<close>

text \<open>
  The state an operation leaves behind, whether it returned or threw: an exception does not
  undo the assignments made before it.
\<close>

definition state_after :: "(error \<times> simulation) + simulation \<Rightarrow> simulation" where
  "state_after r = (case r of Inl es \<Rightarrow> snd es | Inr s \<Rightarrow> s)"

definition loaded_instance :: "'a config_scheme \<Rightarrow> image \<Rightarrow> cache \<Rightarrow> simulation" where
  "loaded_instance c img key2pt_cache =
     (case initialize c (Some img) key2pt_cache of
        Inl esc \<Rightarrow> fst (snd esc)
      | Inr sc \<Rightarrow> fst sc)"

datatype call = UpdateVisibility rat rat "rat option" | ToggleTree rat rat | SetRadius rat

fun step :: "fov \<Rightarrow> simulation \<Rightarrow> call \<Rightarrow> simulation" where
  "step compute s (UpdateVisibility gX gY rad) = state_after (updateVisibility compute s gX gY rad)"
| "step compute s (ToggleTree x y) =
     (case toggleTree s x y of Inl es \<Rightarrow> snd es | Inr bs \<Rightarrow> snd bs)"
| "step compute s (SetRadius r) = setRadius s r"

definition run :: "fov \<Rightarrow> simulation \<Rightarrow> call list \<Rightarrow> simulation" where
  "run compute s calls = foldl (step compute) s calls"

section \<open>The notions the properties are stated with\<close>

text \<open>The elevation entry of a cell, if the grid exists and has one.\<close>

definition elevation_at :: "simulation \<Rightarrow> key \<Rightarrow> int option" where
  "elevation_at s k =
     (case elevationGrid s of None \<Rightarrow> None | Some eg \<Rightarrow> map_option pt_z (map_of eg k))"

text \<open>Membership in the cached ElevationWallSet(E), TreeWallSet(E) and the FowBlocker set.\<close>

definition in_elevationWall :: "simulation \<Rightarrow> int \<Rightarrow> key \<Rightarrow> bool" where
  "in_elevationWall s E k =
     (case elevationWalls s E of None \<Rightarrow> False | Some ew \<Rightarrow> ew k \<noteq> None)"

definition walls_at :: "simulation \<Rightarrow> int \<Rightarrow> key \<Rightarrow> wall list" where
  "walls_at s L k =
     (case treeWalls s L of
        None \<Rightarrow> []
      | Some tw \<Rightarrow> (case tw k of None \<Rightarrow> [] | Some ws \<Rightarrow> ws))"

definition hasTreeWall :: "simulation \<Rightarrow> int \<Rightarrow> key \<Rightarrow> bool" where
  "hasTreeWall s E k = (walls_at s E k \<noteq> [])"

definition isFowBlocker :: "simulation \<Rightarrow> key \<Rightarrow> bool" where
  "isFowBlocker s k =
     (case ent_fow_blocker_node s of None \<Rightarrow> False | Some fb \<Rightarrow> fb k \<noteq> None)"

section \<open>The field-of-view engine, from the spec\<close>

text \<open>
  Modelled from the spec: \<open>ROT.FOV.PreciseShadowcasting.compute\<close> of src/rot6.js, which is
  not among the sources. The spec (4.4) asks for precise shadowcasting in the 8-directional
  topology from the origin up to the radius: each cell's visibility is decided by the slope
  intervals that opaque cells nearer the origin have blocked; an opaque cell blocks what lies
  past it but is itself visited and may be visible; visibility is binary; \<open>area\<close> is the
  number of cells the sweep visited. Here the sweep goes ring by ring (ring \<open>r\<close> is the
  \<open>8 r\<close> cells at Chebyshev distance \<open>r\<close>), cell \<open>i\<close> of a ring of \<open>n\<close> cells
  subtends the interval from \<open>(2 i - 1) / (2 n)\<close> to \<open>(2 i + 1) / (2 n)\<close> of the full
  turn, and a cell is visible unless blocked intervals cover all of its own.
\<close>

definition ring_offsets :: "int \<Rightarrow> (int \<times> int) list" where
  "ring_offsets r =
     map (\<lambda>i. (i, - r)) [- r..r - 1] @ map (\<lambda>j. (r, j)) [- r..r - 1] @
     map (\<lambda>i. (- i, r)) [- r..r - 1] @ map (\<lambda>j. (- r, - j)) [- r..r - 1]"

definition arc_pieces :: "nat \<Rightarrow> nat \<Rightarrow> (rat \<times> rat) list" where
  "arc_pieces i n =
     (if i = 0 then [(0, 1 / of_nat (2 * n)), (1 - 1 / of_nat (2 * n), 1)]
      else [((2 * of_nat i - 1) / of_nat (2 * n), (2 * of_nat i + 1) / of_nat (2 * n))])"

text \<open>How far the blocked intervals reach without a gap, starting from \<open>c\<close>.\<close>

fun reach :: "(rat \<times> rat) list \<Rightarrow> nat \<Rightarrow> rat \<Rightarrow> rat" where
  "reach shadows 0 c = c"
| "reach shadows (Suc n) c =
     reach shadows n
       (fold (\<lambda>sh c'. if fst sh \<le> c' \<and> c' < snd sh then snd sh else c') shadows c)"

definition covered :: "(rat \<times> rat) list \<Rightarrow> rat \<times> rat \<Rightarrow> bool" where
  "covered shadows arc = (snd arc \<le> reach shadows (length shadows) (fst arc))"

record sweep =
  sw_shadows :: "(rat \<times> rat) list"
  sw_visits :: "(rat \<times> rat \<times> rat \<times> rat) list"

text \<open>One cell \<open>c = (i, dx, dy)\<close> of ring \<open>r\<close>: its index and its offset from the origin.\<close>

definition sweep_cell ::
  "(rat \<Rightarrow> rat \<Rightarrow> error + bool) \<Rightarrow> rat \<Rightarrow> rat \<Rightarrow> int \<Rightarrow> nat \<times> int \<times> int \<Rightarrow> sweep \<Rightarrow>
   (error \<times> sweep) + sweep" where
  "sweep_cell lightPasses x y r c sw =
     (case lightPasses (x + of_int (fst (snd c))) (y + of_int (snd (snd c))) of
        Inl e \<Rightarrow> Inl (e, sw)
      | Inr passes \<Rightarrow>
          Inr \<lparr>sw_shadows = (if passes then sw_shadows sw
                              else sw_shadows sw @ arc_pieces (fst c) (nat (8 * r))),
               sw_visits = sw_visits sw @
                 [(x + of_int (fst (snd c)), y + of_int (snd (snd c)), of_int r,
                   if list_all (covered (sw_shadows sw)) (arc_pieces (fst c) (nat (8 * r)))
                   then 0 else 1)]\<rparr>)"

definition sweep_ring ::
  "(rat \<Rightarrow> rat \<Rightarrow> error + bool) \<Rightarrow> rat \<Rightarrow> rat \<Rightarrow> int \<Rightarrow> sweep \<Rightarrow> (error \<times> sweep) + sweep" where
  "sweep_ring lightPasses x y r sw =
     forEach (sweep_cell lightPasses x y r) (enumerate 0 (ring_offsets r)) sw"

definition PreciseShadowcasting_compute :: fov where
  "PreciseShadowcasting_compute fov_walls lightPasses x y R =
     (case forEach (sweep_ring lightPasses x y) [1..\<lfloor>R\<rfloor>]
             \<lparr>sw_shadows = [], sw_visits = [(x, y, 0, 1)]\<rparr> of
        Inl esw \<Rightarrow> \<lparr>fov_visits = sw_visits (snd esw), fov_return = Inl (fst esw)\<rparr>
      | Inr sw \<Rightarrow> \<lparr>fov_visits = sw_visits sw, fov_return = Inr (int (length (sw_visits sw)))\<rparr>)"

section \<open>A small map\<close>

text \<open>
  A 3 by 3 grid: elevation 10 in column 0 and 20 in columns 1 and 2, one tree marker (red 0,
  so blocking elevation 40) at grid cell (1, 1), whose footprint is the cells (0, 0), (0, 1),
  (1, 0), (1, 1), and one FowBlocker cell at (2, 0).
\<close>

definition example_config :: config where
  "example_config = VisionSimulation 0 0 128 128 None"

definition example_image :: image where
  "example_image x y =
     (if x < 3 then (if x = 0 then 10 else 20, 1, 1)
      else if x < 6 then (if x = 4 \<and> y = 1 then (0, 0, 0) else (0, 1, 1))
      else if x < 9 then (255, 255, 255)
      else if x < 12 then (if x = 11 \<and> y = 2 then (0, 0, 0) else (255, 255, 255))
      else (255, 255, 255))"

definition example_instance :: simulation where
  "example_instance = loaded_instance example_config example_image Map.empty"

text \<open>The instance after looking from the cell (2, 1) with radius 1.\<close>

definition example_lit :: simulation where
  "example_lit =
     state_after (updateVisibility PreciseShadowcasting_compute example_instance 2 1 (Some 1))"





text \<open>
  A standing tree whose blocking elevation exceeds the active elevation has a footprint
  corner registered at the key \<open>k\<close>.
\<close>

definition tree_covers :: "simulation \<Rightarrow> key \<Rightarrow> bool" where
  "tree_covers s k =
     (\<exists>t \<in> set (case tree_relations s k of None \<Rightarrow> [] | Some l \<Rightarrow> l).
        tree_state s (pt_key t) = Some True \<and>
        (\<exists>e a. tree_elevations s (pt_key t) = Some e \<and> elevation s = Some a \<and> e > a))"

text \<open>The post-filter of \<open>updateVisibility\<close>'s callback.\<close>

definition passes_filter :: "simulation \<Rightarrow> key \<Rightarrow> bool" where
  "passes_filter s k = (elevation_at s k \<noteq> None \<and> \<not> isFowBlocker s k \<and> \<not> tree_covers s k)"

text \<open>
  ElevationWallSet(E) in the spec's words, over the elevation entries \<open>elev\<close> of the grid:
  the cells with elevation above \<open>E\<close> that have at least one of their 8 neighbours with
  elevation at most \<open>E\<close>.
\<close>

definition ElevationWallSet :: "(key \<rightharpoonup> int) \<Rightarrow> int \<Rightarrow> key set" where
  "ElevationWallSet elev E =
     {k. \<exists>z. elev k = Some z \<and> z > E \<and>
          (\<exists>i \<in> {-1, 0, 1}. \<exists>j \<in> {-1, 0, 1}. (i, j) \<noteq> (0, 0) \<and>
             (\<exists>z'. elev (fst k + i, snd k + j) = Some z' \<and> z' \<le> E))}"

text \<open>
  The elevation grid as \<open>elevationPixelHandler\<close> builds it: one entry per key, and the
  point stored under a key carries the key and its coordinates.
\<close>

definition grid_wf :: "(key \<times> zpt) list \<Rightarrow> bool" where
  "grid_wf eg =
     (distinct (map fst eg) \<and>
      (\<forall>k p. map_of eg k = Some p \<longrightarrow> pt_key p = k \<and> (pt_x p, pt_y p) = k))"

text \<open>Every cached elevation-wall set is the one \<open>generateElevationWalls\<close> computes.\<close>

definition walls_cached :: "simulation \<Rightarrow> bool" where
  "walls_cached s =
     (\<exists>eg. elevationGrid s = Some eg \<and> grid_wf eg \<and>
           (\<forall>E w. elevationWalls s E = Some w \<longrightarrow> w = generateElevationWalls eg E))"

text \<open>
  The tree registry as \<open>treeElevationPixelHandler\<close> builds it: a tree is stored under
  the key of its origin, its footprint is its four corners, its state and blocking elevation
  exist, and the reverse index lists registered trees only. The flag \<open>D\<close> adds what holds
  on a grid of integral width and height only: the four corners are distinct. (When a
  coordinate of the origin is an integer, \<open>Math.floor\<close> and \<open>Math.ceil\<close> agree on it
  and every corner is listed twice.)
\<close>

definition registry_wf :: "bool \<Rightarrow> simulation \<Rightarrow> bool" where
  "registry_wf D s =
     (distinct (map fst (tree s)) \<and>
      (\<forall>kt t. map_of (tree s) kt = Some t \<longrightarrow>
         t = xy2pt (fst kt) (snd kt) \<and> tree_blocks s kt = Some (tree_corners t) \<and>
         (D \<longrightarrow> distinct (map pt_key (tree_corners t))) \<and>
         tree_state s kt \<noteq> None \<and> tree_elevations s kt \<noteq> None) \<and>
      (\<forall>k l t. tree_relations s k = Some l \<longrightarrow> t \<in> set l \<longrightarrow>
         map_of (tree s) (pt_key t) = Some t))"

text \<open>Every registered tree is standing, as it is after \<open>initialize\<close>.\<close>

definition all_standing :: "simulation \<Rightarrow> bool" where
  "all_standing s = (\<forall>kt t. map_of (tree s) kt = Some t \<longrightarrow> tree_state s kt = Some True)"

text \<open>The fields a pixel handler of the tree band, respectively the elevation band, writes.\<close>

definition tree_fields_of :: "simulation \<Rightarrow> simulation \<Rightarrow> simulation" where
  "tree_fields_of s' s =
     s\<lparr>tree := tree s', tree_elevations := tree_elevations s', tree_blocks := tree_blocks s',
       tree_state := tree_state s', tree_relations := tree_relations s'\<rparr>"

text \<open>
  The trees that count for the tree-wall entry of level \<open>L\<close> at key \<open>k\<close>: registered,
  standing, with blocking elevation above \<open>L\<close>, and with \<open>k\<close> among the footprint corners.
\<close>

definition qualifying :: "simulation \<Rightarrow> int \<Rightarrow> key \<Rightarrow> pt set" where
  "qualifying s L k =
     {t. \<exists>kt. map_of (tree s) kt = Some t \<and> tree_state s kt = Some True \<and>
              (\<exists>e. tree_elevations s kt = Some e \<and> L < e) \<and>
              k \<in> pt_key ` set (case tree_blocks s kt of None \<Rightarrow> [] | Some blks \<Rightarrow> blks)}"

text \<open>
  C1's notion: at every known elevation level and every key, the entry holds exactly one
  descriptor for each qualifying tree and nothing else; different trees have different
  descriptors.
\<close>

definition treeWalls_consistent :: "simulation \<Rightarrow> bool" where
  "treeWalls_consistent s =
     (inj_on tree_wall {t. \<exists>kt. map_of (tree s) kt = Some t} \<and>
      (\<forall>L \<in> set (elevationValues s). \<forall>k.
         distinct (walls_at s L k) \<and> set (walls_at s L k) = tree_wall ` qualifying s L k))"

text \<open>The entry of one tree-wall dictionary at a key, empty when there is none.\<close>

definition entry :: "(key \<rightharpoonup> wall list) \<Rightarrow> key \<Rightarrow> wall list" where
  "entry tw k = (case tw k of None \<Rightarrow> [] | Some ws \<Rightarrow> ws)"

text \<open>
  What the proofs maintain about the dictionary \<open>tw\<close> of level \<open>L\<close>: the descriptors
  in an entry are those of the qualifying trees, and every corner of a tree above \<open>L\<close> has
  an entry, standing or not; with the flag \<open>D\<close>, no entry repeats a descriptor.
\<close>

definition walls_ok :: "bool \<Rightarrow> simulation \<Rightarrow> int \<Rightarrow> (key \<rightharpoonup> wall list) \<Rightarrow> bool" where
  "walls_ok D s L tw =
     ((\<forall>k. (D \<longrightarrow> distinct (entry tw k)) \<and> set (entry tw k) = tree_wall ` qualifying s L k) \<and>
      (\<forall>kt t. map_of (tree s) kt = Some t \<longrightarrow> js_lt L (tree_elevations s kt) \<longrightarrow>
         (\<forall>c \<in> set (tree_corners t). tw (pt_key c) \<noteq> None)))"

definition treeWalls_inv :: "bool \<Rightarrow> simulation \<Rightarrow> bool" where
  "treeWalls_inv D s =
     ((\<forall>L. treeWalls s L \<noteq> None \<longrightarrow> L \<in> set (elevationValues s)) \<and>
      (\<forall>L \<in> set (elevationValues s). \<exists>tw. treeWalls s L = Some tw \<and> walls_ok D s L tw))"

text \<open>
  What holds of the tree data of a loaded instance: with \<open>D\<close> false on every grid, with
  \<open>D\<close> true on a grid of integral width and height.
\<close>

definition trees_inv :: "bool \<Rightarrow> simulation \<Rightarrow> bool" where
  "trees_inv D s = (registry_wf D s \<and> treeWalls_inv D s)"

text \<open>
  What holds of the terrain data of a loaded instance: the grid is well formed, cached
  elevation walls are the computed ones, the FowBlocker set exists, and every elevation of
  the grid is a known elevation level.
\<close>

definition terrain_inv :: "simulation \<Rightarrow> bool" where
  "terrain_inv s =
     (walls_cached s \<and> ent_fow_blocker_node s \<noteq> None \<and>
      (\<forall>k z. elevation_at s k = Some z \<longrightarrow> z \<in> set (elevationValues s)))"


text \<open>The descriptors \<open>toggleTree\<close> splices out for the tree \<open>p\<close> are those that match.\<close>

definition matches :: "pt \<Rightarrow> wall \<Rightarrow> bool" where
  "matches p w = (pt_x p = w_x w \<and> pt_y p = w_y w)"

text \<open>Flipping the standing flag stored under a key, as \<open>toggleTree\<close> does.\<close>

definition flip :: "key \<Rightarrow> (key \<rightharpoonup> bool) \<Rightarrow> (key \<rightharpoonup> bool)" where
  "flip k st = st(k \<mapsto> \<not> truthy (st k))"

text \<open>The small map after its tree has been cut by toggling the corner cell (0, 0).\<close>

definition example_felled :: simulation where
  "example_felled = run PreciseShadowcasting_compute example_instance [ToggleTree 0 0]"

text \<open>
  C8's setting: the grid is flat at elevation \<open>E\<close>, no tree is registered and no cell is a
  FowBlocker cell.
\<close>

definition open_field :: "simulation \<Rightarrow> int \<Rightarrow> bool" where
  "open_field s E =
     ((\<forall>k z. elevation_at s k = Some z \<longrightarrow> z = E) \<and> tree s = [] \<and> (\<forall>k. \<not> isFowBlocker s k))"

text \<open>
  The image of a flat map of width \<open>w\<close>: elevation \<open>E\<close> in the elevation band, white
  everywhere else, so no tree marker and no black pixel.
\<close>

definition flat_image :: "int \<Rightarrow> int \<Rightarrow> image" where
  "flat_image w E x y = (if x < w then (E, 1, 1) else (255, 255, 255))"

text \<open>A flat 3 by 3 map at elevation 7 whose default radius is 1.\<close>

definition flat_config :: config where
  "flat_config = VisionSimulation 0 0 128 128 (Some 1)"

definition flat_instance :: simulation where
  "flat_instance = loaded_instance flat_config (flat_image 3 7) Map.empty"

text \<open>
  The small map's image loaded on grids that are not integral: world bounds giving
  \<open>gridHeight = 7 / 2\<close>, respectively \<open>gridWidth = 7 / 2\<close>. The constructor accepts both.
\<close>

definition half_config :: config where
  "half_config = VisionSimulation 0 0 128 160 None"

definition half_instance :: simulation where
  "half_instance = loaded_instance half_config example_image Map.empty"

definition wide_config :: config where
  "wide_config = VisionSimulation 0 0 160 128 None"

definition wide_instance :: simulation where
  "wide_instance = loaded_instance wide_config example_image Map.empty"


section \<open>Opacity\<close>

text \<open>
  C4. With the active elevation \<open>E\<close> and its caches in place, the light-passes callback
  answers false at a cell exactly when the cell is in the cached elevation-wall set of
  \<open>E\<close>, or has at least one tree-wall descriptor at \<open>E\<close>, or is a FowBlocker cell; the
  GridNav and NoWards sets have no influence on the answer.
\<close>

theorem lightPasses_is_opacity:
  assumes "elevation s = Some E" and "elevationWalls s E \<noteq> None" and "treeWalls s E \<noteq> None"
    and "ent_fow_blocker_node s \<noteq> None"
  shows "lightPassesCallback s x y =
           Inr (\<not> (in_elevationWall s E (x, y) \<or> hasTreeWall s E (x, y) \<or> isFowBlocker s (x, y))) \<and>
         lightPassesCallback (s\<lparr>gridnav := g, tools_no_wards := n\<rparr>) x y = lightPassesCallback s x y"
  using assms
  by (auto simp: Let_def lightPassesCallback_def in_elevationWall_def hasTreeWall_def
      walls_at_def isFowBlocker_def split: option.splits)

theorem lightPasses_is_opacity_witness:
  "elevation example_lit = Some 20 \<and> elevationWalls example_lit 20 \<noteq> None \<and>
   treeWalls example_lit 20 \<noteq> None \<and> ent_fow_blocker_node example_lit \<noteq> None \<and>
   lightPassesCallback example_lit 2 0 = Inr False \<and> isFowBlocker example_lit (2, 0) \<and>
   lightPassesCallback (example_lit\<lparr>gridnav := None, tools_no_wards := None\<rparr>) 2 0 = Inr False"
proof -
  have "let s = example_lit in
          elevation s = Some 20 \<and> \<not> Option.is_none (elevationWalls s 20) \<and>
          \<not> Option.is_none (treeWalls s 20) \<and> \<not> Option.is_none (ent_fow_blocker_node s) \<and>
          isFowBlocker s (2, 0)"
    by code_simp
  then have h: "elevation example_lit = Some 20" "elevationWalls example_lit 20 \<noteq> None"
    "treeWalls example_lit 20 \<noteq> None" "ent_fow_blocker_node example_lit \<noteq> None"
    "isFowBlocker example_lit (2, 0)"
    by (simp_all add: Let_def Option.is_none_def)
  from lightPasses_is_opacity[OF h(1-4), of 2 0 None None] h
  show ?thesis by simp
qed

section \<open>Failures\<close>

text \<open>
  C2, as stated, fails: on an instance that is not ready, \<open>toggleTree\<close> does not fail, it
  returns false.
\<close>

theorem notReady_toggleTree_counterexample:
  "\<not> ready (initialize_begin example_config) \<and>
   toggleTree (initialize_begin example_config) 0 0 = Inr (False, initialize_begin example_config)"
  by (simp add: toggleTree_def initialize_begin_def)

text \<open>
  C2, amended. \<open>isValidXY\<close> returns false on every instance that is not ready. An instance
  whose \<open>initialize\<close> has started and has not succeeded (the state a failed load leaves) is
  not ready; on it \<open>updateVisibility\<close> throws a TypeError and \<open>toggleTree\<close> returns false,
  and both leave the instance unchanged.
\<close>

theorem notReady_behaviour:
  "(\<not> ready s \<longrightarrow> isValidXY s x y bCheckGridnav bCheckToolsNoWards bCheckTreeState = Inr False) \<and>
   initialize c None key2pt_cache = Inr (initialize_begin c, key2pt_cache) \<and>
   \<not> ready (initialize_begin c) \<and>
   updateVisibility compute (initialize_begin c) gX gY rad = Inl (TypeError, initialize_begin c) \<and>
   toggleTree (initialize_begin c) x y = Inr (False, initialize_begin c)"
  by (simp add: isValidXY_def initialize_def updateVisibility_def toggleTree_def
      initialize_begin_def)

theorem notReady_behaviour_witness:
  "\<not> ready (initialize_begin example_config) \<and>
   isValidXY (initialize_begin example_config) 1 1 True True True = Inr False \<and>
   updateVisibility PreciseShadowcasting_compute (initialize_begin example_config) 1 1 None =
     Inl (TypeError, initialize_begin example_config)"
proof -
  have h: "\<not> ready (initialize_begin example_config)" by (simp add: initialize_begin_def)
  from notReady_behaviour[where s = "initialize_begin example_config" and x = 1 and y = 1
      and bCheckGridnav = True and bCheckToolsNoWards = True and bCheckTreeState = True
      and c = example_config and compute = PreciseShadowcasting_compute and gX = 1 and gY = 1
      and rad = None] h
  show ?thesis by simp
qed

section \<open>The radius argument\<close>




section \<open>The light map\<close>

lemma treeBlocking_loop_iff:
  "treeBlocking_loop s l \<longleftrightarrow>
     (\<exists>t \<in> set l. tree_state s (pt_key t) = Some True \<and>
        (\<exists>e a. tree_elevations s (pt_key t) = Some e \<and> elevation s = Some a \<and> e > a))"
  by (induction l) (auto simp: truthy_def js_gt_def split: option.splits)

lemma treeBlocking_at_iff: "treeBlocking_at s k \<longleftrightarrow> tree_covers s k"
  by (auto simp: treeBlocking_at_def tree_covers_def treeBlocking_loop_iff split: option.splits)

lemma visibility_callback_Inr:
  assumes "visibility_callback v s = Inr s'"
  shows "s' = s\<lparr>lights := lights s'\<rparr>"
    and "lights s' = (if snd (snd (snd v)) = 1 \<and> passes_filter s (fst v, fst (snd v))
                      then AList.update (fst v, fst (snd v)) 255 (lights s) else lights s)"
  using assms
  by (auto simp: visibility_callback_def passes_filter_def elevation_at_def isFowBlocker_def
      treeBlocking_at_iff xy2key_def split: option.splits if_splits)

lemma visibility_callback_Inl:
  assumes "visibility_callback v s = Inl (e, s')"
  shows "s' = s"
  using assms
  by (auto simp: visibility_callback_def split: option.splits if_splits)

lemma passes_filter_lights [simp]: "passes_filter (s\<lparr>lights := l\<rparr>) k = passes_filter s k"
  by (simp add: passes_filter_def elevation_at_def isFowBlocker_def tree_covers_def)

lemma forEach_callback_Inr:
  assumes "forEach visibility_callback vs s = Inr s'"
  shows "s' = s\<lparr>lights := lights s'\<rparr> \<and>
         lights s' = fold (\<lambda>v l. if snd (snd (snd v)) = 1 \<and> passes_filter s (fst v, fst (snd v))
                      then AList.update (fst v, fst (snd v)) 255 l else l) vs (lights s)"
  using assms
proof (induction vs arbitrary: s)
  case Nil
  then show ?case by simp
next
  case (Cons v vs)
  from Cons.prems obtain s1 where s1: "visibility_callback v s = Inr s1"
    and rest: "forEach visibility_callback vs s1 = Inr s'"
    by (auto split: sum.splits)
  note f = visibility_callback_Inr[OF s1]
  from Cons.IH[OF rest] have a: "s' = s1\<lparr>lights := lights s'\<rparr>"
    and b: "lights s' = fold (\<lambda>v l. if snd (snd (snd v)) = 1 \<and> passes_filter s1 (fst v, fst (snd v))
                      then AList.update (fst v, fst (snd v)) 255 l else l) vs (lights s1)"
    by blast+
  have pf: "passes_filter s1 = passes_filter s"
    by (subst f(1)) (simp add: fun_eq_iff)
  have "s' = s\<lparr>lights := lights s'\<rparr>"
    by (subst a, subst f(1)) simp
  moreover have "lights s' = fold (\<lambda>v l. if snd (snd (snd v)) = 1 \<and> passes_filter s (fst v, fst (snd v))
                      then AList.update (fst v, fst (snd v)) 255 l else l) (v # vs) (lights s)"
    using b f(2) by (simp add: pf)
  ultimately show ?case by blast
qed

lemma forEach_callback_Inl:
  assumes "forEach visibility_callback vs s = Inl (e, s')"
  shows "s' = s\<lparr>lights := lights s'\<rparr>"
  using assms
proof (induction vs arbitrary: s)
  case Nil
  then show ?case by simp
next
  case (Cons v vs)
  show ?case
  proof (cases "visibility_callback v s")
    case (Inl es)
    with Cons.prems have "es = (e, s')" by simp
    with Inl visibility_callback_Inl[of v s e s'] show ?thesis by simp
  next
    case (Inr s1)
    with Cons.prems have rest: "forEach visibility_callback vs s1 = Inl (e, s')" by simp
    from Cons.IH[OF rest] have a: "s' = s1\<lparr>lights := lights s'\<rparr>" .
    show ?thesis by (subst a, subst visibility_callback_Inr(1)[OF Inr]) simp
  qed
qed

text \<open>What the fold of conditional updates leaves in the list.\<close>

lemma fold_update_map_of:
  "map_of (fold (\<lambda>v l. if P v then AList.update (kf v) c l else l) vs l0) k =
     (if \<exists>v \<in> set vs. P v \<and> kf v = k then Some c else map_of l0 k)"
  by (induction vs arbitrary: l0) (auto simp: update_conv')

lemma fold_update_distinct:
  "distinct (map fst l0) \<Longrightarrow>
   distinct (map fst (fold (\<lambda>v l. if P v then AList.update (kf v) c l else l) vs l0))"
  by (induction vs arbitrary: l0) (auto simp: distinct_update)


lemma lightPassesCallback_cong:
  assumes "elevation s' = elevation s" "elevationWalls s' = elevationWalls s"
    "ent_fow_blocker_node s' = ent_fow_blocker_node s" "treeWalls s' = treeWalls s"
  shows "lightPassesCallback s' = lightPassesCallback s"
  unfolding lightPassesCallback_def assms ..

lemma updateVisibility_Inr:
  assumes "updateVisibility compute s gX gY rad = Inr s'"
  obtains eg p s4 a where "elevationGrid s = Some eg" "map_of eg (gX, gY) = Some p"
    "forEach visibility_callback
       (fov_visits (compute (treeWalls s (pt_z p))
          (lightPassesCallback (updateVisibility_begin s eg (pt_z p))) gX gY (js_or rad (radius s))))
       (updateVisibility_begin s eg (pt_z p)) = Inr s4"
    "fov_return (compute (treeWalls s (pt_z p))
          (lightPassesCallback (updateVisibility_begin s eg (pt_z p))) gX gY (js_or rad (radius s))) = Inr a"
    "s' = s4\<lparr>area := a, lightArea := Some (length (lights s4))\<rparr>"
  using assms
  by (auto simp: updateVisibility_def xy2key_def split: option.splits sum.splits)

text \<open>
  C3. When \<open>updateVisibility\<close> returns, with \<open>visits\<close> the calls \<open>compute\<close> made to
  the callback: a key is in \<open>lights\<close> (with the flag 255) exactly when some call with
  \<open>vis = 1\<close> visited it and the cell has an elevation entry, is not a FowBlocker cell and
  is not covered by a standing tree above the active elevation; so the earlier content of
  \<open>lights\<close> is gone. \<open>lightArea\<close> is the number of keys of \<open>lights\<close>, \<open>elevation\<close>
  is the origin's elevation, and \<open>area\<close> is the value \<open>compute\<close> returned, which for the
  engine modelled from the spec is the number of cells visited.
\<close>

theorem updateVisibility_post_filter:
  assumes "updateVisibility compute s gX gY rad = Inr s'"
  shows "\<exists>E visits.
           elevation_at s (gX, gY) = Some E \<and> elevation s' = Some E \<and>
           visits = fov_visits (compute (treeWalls s' E) (lightPassesCallback s') gX gY
                                  (js_or rad (radius s))) \<and>
           (\<forall>k. map_of (lights s') k =
                  (if (\<exists>v \<in> set visits. (fst v, fst (snd v)) = k \<and> snd (snd (snd v)) = 1) \<and>
                      elevation_at s' k \<noteq> None \<and> \<not> isFowBlocker s' k \<and> \<not> tree_covers s' k
                   then Some 255 else None)) \<and>
           lightArea s' = Some (card (dom (map_of (lights s')))) \<and>
           fov_return (compute (treeWalls s' E) (lightPassesCallback s') gX gY
                         (js_or rad (radius s))) = Inr (area s') \<and>
           (compute = PreciseShadowcasting_compute \<longrightarrow> area s' = int (length visits))"
proof -
  from assms obtain eg p s4 a where eg: "elevationGrid s = Some eg"
    and p: "map_of eg (gX, gY) = Some p"
    and fe: "forEach visibility_callback
       (fov_visits (compute (treeWalls s (pt_z p))
          (lightPassesCallback (updateVisibility_begin s eg (pt_z p))) gX gY (js_or rad (radius s))))
       (updateVisibility_begin s eg (pt_z p)) = Inr s4"
    and ret: "fov_return (compute (treeWalls s (pt_z p))
          (lightPassesCallback (updateVisibility_begin s eg (pt_z p))) gX gY (js_or rad (radius s))) = Inr a"
    and s': "s' = s4\<lparr>area := a, lightArea := Some (length (lights s4))\<rparr>"
    by (rule updateVisibility_Inr)
  define E where "E = pt_z p"
  define s3 where "s3 = updateVisibility_begin s eg E"
  define visits where "visits = fov_visits (compute (treeWalls s E) (lightPassesCallback s3) gX gY
                                  (js_or rad (radius s)))"
  note fr = forEach_callback_Inr[OF fe]
  have s4: "s4 = s3\<lparr>lights := lights s4\<rparr>"
    unfolding s3_def E_def using fr by blast
  have l4: "lights s4 = fold (\<lambda>v l. if snd (snd (snd v)) = 1 \<and> passes_filter s3 (fst v, fst (snd v))
                      then AList.update (fst v, fst (snd v)) 255 l else l) visits (lights s3)"
    unfolding s3_def E_def visits_def using fr by blast
  have l3: "lights s3 = []" by (simp add: s3_def updateVisibility_begin_def)
  have s'3: "s' = s3\<lparr>lights := lights s4, area := a, lightArea := Some (length (lights s4))\<rparr>"
    by (subst s', subst s4) simp
  have tw: "treeWalls s' = treeWalls s"
    by (simp add: s'3 s3_def updateVisibility_begin_def)
  have lp: "lightPassesCallback s' = lightPassesCallback s3"
    by (rule lightPassesCallback_cong) (simp_all add: s'3)
  have pf: "passes_filter s3 k \<longleftrightarrow>
              elevation_at s' k \<noteq> None \<and> \<not> isFowBlocker s' k \<and> \<not> tree_covers s' k" for k
    by (simp add: s'3 passes_filter_def elevation_at_def isFowBlocker_def tree_covers_def)
  have lights: "map_of (lights s') k =
                  (if (\<exists>v \<in> set visits. (fst v, fst (snd v)) = k \<and> snd (snd (snd v)) = 1) \<and>
                      elevation_at s' k \<noteq> None \<and> \<not> isFowBlocker s' k \<and> \<not> tree_covers s' k
                   then Some 255 else None)" for k
  proof -
    have "lights s' = lights s4" by (simp add: s')
    then have "map_of (lights s') k =
        (if \<exists>v \<in> set visits. (snd (snd (snd v)) = 1 \<and> passes_filter s3 (fst v, fst (snd v))) \<and>
               (fst v, fst (snd v)) = k then Some 255 else map_of [] k)"
      by (simp only: l4 l3 fold_update_map_of)
    then show ?thesis using pf by auto
  qed
  have dl: "distinct (map fst (lights s4))"
    by (simp only: l4 l3) (rule fold_update_distinct, simp)
  have "card (set (map fst (lights s4))) = length (map fst (lights s4))"
    using dl by (rule distinct_card)
  then have "card (dom (map_of (lights s'))) = length (lights s4)"
    by (simp add: s' dom_map_of_conv_image_fst)
  then have la: "lightArea s' = Some (card (dom (map_of (lights s'))))"
    by (simp add: s')
  have el: "elevation_at s (gX, gY) = Some E" "elevation s' = Some E"
    by (simp_all add: elevation_at_def eg p E_def s'3 s3_def updateVisibility_begin_def)
  have vis: "visits = fov_visits (compute (treeWalls s' E) (lightPassesCallback s') gX gY
                                  (js_or rad (radius s)))"
    by (simp add: visits_def tw lp)
  have ar: "fov_return (compute (treeWalls s' E) (lightPassesCallback s') gX gY
                         (js_or rad (radius s))) = Inr (area s')"
  proof -
    have "area s' = a" by (simp add: s')
    with ret show ?thesis unfolding tw lp s3_def E_def by simp
  qed
  have ps: "compute = PreciseShadowcasting_compute \<longrightarrow> area s' = int (length visits)"
  proof
    assume c: "compute = PreciseShadowcasting_compute"
    from ar show "area s' = int (length visits)"
      unfolding vis c PreciseShadowcasting_compute_def
      by (auto split: sum.splits)
  qed
  from el vis lights la ar ps show ?thesis by blast
qed


theorem updateVisibility_post_filter_witness:
  "updateVisibility PreciseShadowcasting_compute example_instance 2 1 (Some 1) = Inr example_lit \<and>
   lights example_lit = [((2, 1), 255), ((2, 2), 255), ((1, 2), 255)] \<and>
   lightArea example_lit = Some (card (dom (map_of (lights example_lit)))) \<and>
   elevation example_lit = elevation_at example_instance (2, 1) \<and>
   area example_lit = 9"
proof -
  have "let r = updateVisibility PreciseShadowcasting_compute example_instance 2 1 (Some 1)
        in (case r of Inl e \<Rightarrow> False | Inr s \<Rightarrow> True) \<and>
           lights (state_after r) = [((2, 1), 255), ((2, 2), 255), ((1, 2), 255)] \<and>
           area (state_after r) = 9"
    by code_simp
  then have h: "updateVisibility PreciseShadowcasting_compute example_instance 2 1 (Some 1) =
                  Inr example_lit"
    and l: "lights example_lit = [((2, 1), 255), ((2, 2), 255), ((1, 2), 255)]"
    and a: "area example_lit = 9"
    by (auto simp: Let_def example_lit_def state_after_def split: sum.splits)
  from updateVisibility_post_filter[OF h] obtain E where
    "elevation_at example_instance (2, 1) = Some E" "elevation example_lit = Some E"
    "lightArea example_lit = Some (card (dom (map_of (lights example_lit))))"
    by blast
  with h l a show ?thesis by simp
qed

section \<open>Elevation walls\<close>

lemma fold_walls_dom:
  "dom (fold (\<lambda>(k, p) w. if Q p then w(pt_key p \<mapsto> p) else w) xs w0) =
     dom w0 \<union> {pt_key p |k p. (k, p) \<in> set xs \<and> Q p}"
proof (induction xs arbitrary: w0)
  case Nil
  show ?case by simp
next
  case (Cons a xs)
  obtain k p where a: "a = (k, p)" by (cases a)
  show ?case
    unfolding a fold_simps o_apply prod.case Cons.IH
    by (cases "Q p") auto
qed

lemma has_low_neighbour_iff:
  "has_low_neighbour eg E p \<longleftrightarrow>
     (\<exists>i \<in> {-1, 0, 1}. \<exists>j \<in> {-1, 0, 1}. (i, j) \<noteq> (0, 0) \<and>
        (\<exists>q. map_of eg (pt_x p + i, pt_y p + j) = Some q \<and> pt_z q \<le> E))"
  by (auto simp: has_low_neighbour_def adj_offsets_def split: option.splits)

lemma generateElevationWalls_dom:
  assumes "grid_wf eg"
  shows "dom (generateElevationWalls eg E) = ElevationWallSet (map_option pt_z \<circ> map_of eg) E"
proof -
  have d: "map_of eg k = Some p \<longleftrightarrow> (k, p) \<in> set eg" for k p
    using assms by (simp add: grid_wf_def)
  have w: "(k, p) \<in> set eg \<Longrightarrow> pt_key p = k \<and> pt_x p = fst k \<and> pt_y p = snd k" for k p
    using assms d[of k p] by (cases k) (auto simp: grid_wf_def)
  have "dom (generateElevationWalls eg E) =
          {pt_key p |k p. (k, p) \<in> set eg \<and> pt_z p > E \<and> has_low_neighbour eg E p}"
    unfolding generateElevationWalls_def fold_walls_dom by simp
  also have "\<dots> = {k. \<exists>p. (k, p) \<in> set eg \<and> pt_z p > E \<and> has_low_neighbour eg E p}"
    using w by blast
  also have "\<dots> = ElevationWallSet (map_option pt_z \<circ> map_of eg) E"
  proof (rule set_eqI, rule iffI)
    fix k assume "k \<in> {k. \<exists>p. (k, p) \<in> set eg \<and> pt_z p > E \<and> has_low_neighbour eg E p}"
    then obtain p where p: "(k, p) \<in> set eg" "pt_z p > E" "has_low_neighbour eg E p" by blast
    from p(3) obtain i j q where ij: "i \<in> {-1, 0, 1}" "j \<in> {-1, 0, 1}" "(i, j) \<noteq> (0, 0)"
      and q: "map_of eg (pt_x p + i, pt_y p + j) = Some q" "pt_z q \<le> E"
      unfolding has_low_neighbour_iff by blast
    from w[OF p(1)] q have "(map_option pt_z \<circ> map_of eg) (fst k + i, snd k + j) = Some (pt_z q)"
      by simp
    moreover from p(1) have "map_of eg k = Some p" by (simp only: d)
    then have "(map_option pt_z \<circ> map_of eg) k = Some (pt_z p)" by simp
    ultimately show "k \<in> ElevationWallSet (map_option pt_z \<circ> map_of eg) E"
      unfolding ElevationWallSet_def using ij p(2) q(2) by blast
  next
    fix k assume "k \<in> ElevationWallSet (map_option pt_z \<circ> map_of eg) E"
    then obtain z i j z' where z: "(map_option pt_z \<circ> map_of eg) k = Some z" "z > E"
      and ij: "i \<in> {-1, 0, 1}" "j \<in> {-1, 0, 1}" "(i, j) \<noteq> (0, 0)"
      and z': "(map_option pt_z \<circ> map_of eg) (fst k + i, snd k + j) = Some z'" "z' \<le> E"
      unfolding ElevationWallSet_def by blast
    from z(1) obtain p where p: "map_of eg k = Some p" "pt_z p = z" by auto
    from z'(1) obtain q where q: "map_of eg (fst k + i, snd k + j) = Some q" "pt_z q = z'" by auto
    from p(1) have kp: "(k, p) \<in> set eg" by (simp only: d)
    from w[OF kp] q(1) have "map_of eg (pt_x p + i, pt_y p + j) = Some q" by simp
    with ij q(2) z'(2) have "has_low_neighbour eg E p"
      unfolding has_low_neighbour_iff by blast
    with kp p(2) z(2) show "k \<in> {k. \<exists>p. (k, p) \<in> set eg \<and> pt_z p > E \<and> has_low_neighbour eg E p}"
      by blast
  qed
  finally show ?thesis .
qed

section \<open>Loops\<close>

lemma fold_prefix_rule:
  assumes "P [] s" and "\<And>pre x s. P pre s \<Longrightarrow> x \<in> set xs \<Longrightarrow> P (pre @ [x]) (f x s)"
  shows "P xs (fold f xs s)"
proof -
  have "P pre s \<Longrightarrow> set ys \<subseteq> set xs \<Longrightarrow> P (pre @ ys) (fold f ys s)" for pre ys s
  proof (induction ys arbitrary: pre s)
    case Nil
    then show ?case by simp
  next
    case (Cons y ys)
    from Cons.prems have "P (pre @ [y]) (f y s)" by (auto intro: assms(2))
    from Cons.IH[OF this] Cons.prems(2) show ?case by simp
  qed
  from this[of "[]" s xs] assms(1) show ?thesis by simp
qed

lemma scan_rule:
  assumes "P st" and "\<And>x y p st. P st \<Longrightarrow> P (pixelHandler x y p st)"
  shows "P (scan img offset width height pixelHandler st)"
  unfolding scan_def
  by (rule fold_invariant[where Q = "\<lambda>_. True" and P = P]) (auto intro: assms)

lemma scan_cells_mem:
  "(x, y) \<in> set (scan_cells w h) \<longleftrightarrow> 0 \<le> x \<and> x < w \<and> 0 \<le> y \<and> y < h"
proof -
  have "(x, y) \<in> set (scan_cells w h) \<longleftrightarrow> (\<exists>b \<in> {0..h - 1}. (x, y) \<in> (\<lambda>a. (a, b)) ` {0..w - 1})"
    by (simp add: scan_cells_def)
  also have "\<dots> \<longleftrightarrow> y \<in> {0..h - 1} \<and> x \<in> {0..w - 1}" by blast
  also have "\<dots> \<longleftrightarrow> 0 \<le> x \<and> x < w \<and> 0 \<le> y \<and> y < h" by auto
  finally show ?thesis .
qed

lemma scan_rule_img:
  assumes "P st"
    and "\<And>x y st. P st \<Longrightarrow> (x, y) \<in> set (scan_cells \<lfloor>width\<rfloor> \<lfloor>height\<rfloor>) \<Longrightarrow>
           P (pixelHandler (of_int (\<lfloor>offset\<rfloor> + x) - offset) (of_int y) (img (\<lfloor>offset\<rfloor> + x) y) st)"
  shows "P (scan img offset width height pixelHandler st)"
  unfolding scan_def
proof (rule fold_invariant[where Q = "\<lambda>c. c \<in> set (scan_cells \<lfloor>width\<rfloor> \<lfloor>height\<rfloor>)" and P = P])
  show "P st" by fact
next
  fix c :: "int \<times> int" and st'
  assume c: "c \<in> set (scan_cells \<lfloor>width\<rfloor> \<lfloor>height\<rfloor>)" and P: "P st'"
  obtain x y where xy: "c = (x, y)" by (cases c)
  from assms(2)[OF P c[unfolded xy]]
  show "P ((case c of (x, y) \<Rightarrow> pixelHandler (of_int (\<lfloor>offset\<rfloor> + x) - offset) (of_int y)
                                  (img (\<lfloor>offset\<rfloor> + x) y)) st')"
    unfolding xy split .
qed simp

lemma scan_noop:
  assumes "\<And>x y. (x, y) \<in> set (scan_cells \<lfloor>width\<rfloor> \<lfloor>height\<rfloor>) \<Longrightarrow>
             pixelHandler (of_int (\<lfloor>offset\<rfloor> + x) - offset) (of_int y) (img (\<lfloor>offset\<rfloor> + x) y) st = st"
  shows "scan img offset width height pixelHandler st = st"
proof (rule scan_rule_img[where P = "\<lambda>st'. st' = st"])
  show "st = st" ..
next
  fix x y st'
  assume "st' = st" and "(x, y) \<in> set (scan_cells \<lfloor>width\<rfloor> \<lfloor>height\<rfloor>)"
  then show "pixelHandler (of_int (\<lfloor>offset\<rfloor> + x) - offset) (of_int y) (img (\<lfloor>offset\<rfloor> + x) y) st' = st"
    by (simp only: assms)
qed

section \<open>The tree registry after the tree band is parsed\<close>

lemma half_floor_ceiling:
  fixes n :: int
  shows "\<lfloor>(of_int n :: rat) - 1 / 2\<rfloor> = n - 1" and "\<lceil>(of_int n :: rat) - 1 / 2\<rceil> = n"
  by linarith+

lemma tree_corners_distinct:
  assumes "pt_x t = of_int a - 1 / 2" and "pt_y t = of_int b - 1 / 2"
  shows "distinct (map pt_key (tree_corners t))"
  using assms by (simp add: tree_corners_def xy2pt_def half_floor_ceiling)

lemma Ints_diff_of_int:
  fixes q :: rat
  assumes "q \<in> \<int>"
  shows "of_int (\<lfloor>q\<rfloor> + x) - q = of_int x"
  using assms by (auto elim: Ints_cases)

lemma relations_fold_subset:
  assumes "fold (\<lambda>c m. m(pt_key c \<mapsto> (case m (pt_key c) of None \<Rightarrow> [] | Some l \<Rightarrow> l) @ [t])) cs m0 k
             = Some ts"
  shows "set ts \<subseteq> (case m0 k of None \<Rightarrow> {} | Some l0 \<Rightarrow> set l0) \<union> {t}"
  using assms
proof (induction cs arbitrary: m0)
  case Nil
  then show ?case by auto
next
  case (Cons c cs)
  define m1 where "m1 = m0(pt_key c \<mapsto> (case m0 (pt_key c) of None \<Rightarrow> [] | Some l \<Rightarrow> l) @ [t])"
  from Cons.prems have
    "fold (\<lambda>c m. m(pt_key c \<mapsto> (case m (pt_key c) of None \<Rightarrow> [] | Some l \<Rightarrow> l) @ [t])) cs m1 k
       = Some ts"
    by (simp only: fold_simps o_apply m1_def)
  from Cons.IH[OF this]
  have 1: "set ts \<subseteq> (case m1 k of None \<Rightarrow> {} | Some l0 \<Rightarrow> set l0) \<union> {t}" .
  have 2: "(case m1 k of None \<Rightarrow> {} | Some l0 \<Rightarrow> set l0) \<subseteq>
           (case m0 k of None \<Rightarrow> {} | Some l0 \<Rightarrow> set l0) \<union> {t}"
  proof (cases "k = pt_key c")
    case True
    then show ?thesis by (cases "m0 k") (auto simp: m1_def)
  next
    case False
    then show ?thesis by (auto simp: m1_def)
  qed
  from 1 2 show ?case by blast
qed

lemma treeElevationPixelHandler_other:
  assumes "\<not> (fst (snd p) = 0 \<and> snd (snd p) = 0)"
  shows "treeElevationPixelHandler x y p st = st"
  using assms by (cases st) (auto simp: treeElevationPixelHandler_def Let_def)

lemma treeElevationPixelHandler_marker:
  fixes x y :: rat and s :: simulation and p :: pixel and g :: "key \<rightharpoonup> pt"
  assumes "fst (snd p) = 0 \<and> snd (snd p) = 0"
  defines "t \<equiv> xy2pt (x - 1 / 2) (gridHeight s - y - 1 - 1 / 2)"
  defines "s' \<equiv> fst (treeElevationPixelHandler x y p (s, g))"
  shows "s' = s\<lparr>tree := tree s', tree_elevations := tree_elevations s',
                 tree_blocks := tree_blocks s', tree_state := tree_state s',
                 tree_relations := tree_relations s'\<rparr>"
    and "tree s' = AList.update (pt_key t) t (tree s)"
    and "tree_elevations s' = (tree_elevations s)(pt_key t \<mapsto> fst p + 40)"
    and "tree_state s' = (tree_state s)(pt_key t \<mapsto> True)"
    and "tree_blocks s' = (tree_blocks s)(pt_key t \<mapsto> tree_corners t)"
    and "tree_relations s' =
           fold (\<lambda>c m. m(pt_key c \<mapsto> (case m (pt_key c) of None \<Rightarrow> [] | Some l \<Rightarrow> l) @ [t]))
             (tree_corners t) (tree_relations s)"
  using assms(1) unfolding s'_def t_def
  by (simp_all add: treeElevationPixelHandler_def Let_def ImageXYtoGridXY_def tree_corners_def
      add_corner_def xy2pt_def fun_eq_iff)

lemma tree_fields_of_trans:
  "s1 = tree_fields_of s1 s0 \<Longrightarrow> s2 = tree_fields_of s2 s1 \<Longrightarrow> s2 = tree_fields_of s2 s0"
proof -
  assume a: "s1 = tree_fields_of s1 s0" and b: "s2 = tree_fields_of s2 s1"
  have "tree_fields_of s2 s1 = tree_fields_of s2 (tree_fields_of s1 s0)" using a by simp
  also have "\<dots> = tree_fields_of s2 s0" by (simp add: tree_fields_of_def)
  finally show ?thesis using b by simp
qed

lemma treeElevationPixelHandler_frame:
  "fst (treeElevationPixelHandler x y p st) =
     tree_fields_of (fst (treeElevationPixelHandler x y p st)) (fst st)"
proof (cases "fst (snd p) = 0 \<and> snd (snd p) = 0")
  case True
  obtain s g where st: "st = (s, g)" by (cases st)
  from treeElevationPixelHandler_marker(1)[OF True, where x = x and s = s and y = y and g = g]
  show ?thesis by (simp add: st tree_fields_of_def)
next
  case False
  then show ?thesis
    by (simp add: treeElevationPixelHandler_other tree_fields_of_def)
qed

lemma treeElevationPixelHandler_registry:
  assumes "D \<longrightarrow> gridHeight (fst st) \<in> \<int> \<and> x \<in> \<int> \<and> y \<in> \<int>"
    and "registry_wf D (fst st)" and "all_standing (fst st)"
  shows "registry_wf D (fst (treeElevationPixelHandler x y p st)) \<and>
         all_standing (fst (treeElevationPixelHandler x y p st))"
proof (cases "fst (snd p) = 0 \<and> snd (snd p) = 0")
  case False
  with assms show ?thesis by (simp add: treeElevationPixelHandler_other)
next
  case True
  obtain s g where st: "st = (s, g)" by (cases st)
  define t where "t = xy2pt (x - 1 / 2) (gridHeight s - y - 1 - 1 / 2)"
  define s' where "s' = fst (treeElevationPixelHandler x y p (s, g))"
  note m = treeElevationPixelHandler_marker(2-6)[OF True, where x = x and s = s and y = y and g = g,
      folded t_def s'_def]
  have wf: "registry_wf D s" and st0: "all_standing s" using assms by (simp_all add: st)
  have tk: "t = xy2pt (fst (pt_key t)) (snd (pt_key t))"
    by (simp add: t_def xy2pt_def)
  have dc: "distinct (map pt_key (tree_corners t))" if D
  proof -
    from that assms(1) obtain h a b :: int where "gridHeight s = of_int h" "x = of_int a" "y = of_int b"
      by (auto simp: st elim!: Ints_cases)
    then have "pt_x t = of_int a - 1 / 2" "pt_y t = of_int (h - b - 1) - 1 / 2"
      by (simp_all add: t_def xy2pt_def)
    then show ?thesis by (rule tree_corners_distinct)
  qed
  have mo: "map_of (tree s') = (map_of (tree s))(pt_key t \<mapsto> t)"
    by (simp add: m(1) update_conv')
  have 1: "distinct (map fst (tree s'))"
    using wf by (simp add: m(1) registry_wf_def distinct_update)
  have 2: "t' = xy2pt (fst kt) (snd kt) \<and> tree_blocks s' kt = Some (tree_corners t') \<and>
           (D \<longrightarrow> distinct (map pt_key (tree_corners t'))) \<and>
           tree_state s' kt \<noteq> None \<and> tree_elevations s' kt \<noteq> None \<and> tree_state s' kt = Some True"
    if "map_of (tree s') kt = Some t'" for kt t'
  proof (cases "kt = pt_key t")
    case True
    with that have "t' = t" by (simp add: mo)
    with True tk dc show ?thesis by (simp add: m)
  next
    case False
    with that have old: "map_of (tree s) kt = Some t'" by (simp add: mo)
    with wf have o: "t' = xy2pt (fst kt) (snd kt) \<and> tree_blocks s kt = Some (tree_corners t') \<and>
           (D \<longrightarrow> distinct (map pt_key (tree_corners t'))) \<and>
           tree_state s kt \<noteq> None \<and> tree_elevations s kt \<noteq> None"
      unfolding registry_wf_def by blast
    from st0 old have "tree_state s kt = Some True"
      unfolding all_standing_def by blast
    with o False show ?thesis by (auto simp: m)
  qed
  have 3: "map_of (tree s') (pt_key t') = Some t'"
    if "tree_relations s' k = Some l" "t' \<in> set l" for k l t'
  proof -
    from that(1) have "set l \<subseteq> (case tree_relations s k of None \<Rightarrow> {} | Some l0 \<Rightarrow> set l0) \<union> {t}"
      unfolding m(5) by (rule relations_fold_subset)
    with that(2) consider "t' = t" | l0 where "tree_relations s k = Some l0" "t' \<in> set l0"
      by (auto split: option.splits)
    then show ?thesis
    proof cases
      case 1
      then show ?thesis by (simp add: mo)
    next
      case 2
      with wf have old: "map_of (tree s) (pt_key t') = Some t'"
        unfolding registry_wf_def by blast
      show ?thesis
      proof (cases "pt_key t' = pt_key t")
        case True
        from wf old have "t' = xy2pt (fst (pt_key t')) (snd (pt_key t'))"
          unfolding registry_wf_def by blast
        with True tk have "t' = t" by simp
        then show ?thesis by (simp add: mo)
      next
        case False
        with old show ?thesis by (simp add: mo)
      qed
    qed
  qed
  have "registry_wf D s'"
    unfolding registry_wf_def using 1 2 3 by blast
  moreover have "all_standing s'"
    unfolding all_standing_def using 2 by blast
  ultimately show ?thesis by (simp add: s'_def st)
qed

lemma tree_scan_frame:
  "fst (scan img offset width height treeElevationPixelHandler (s, g)) =
     tree_fields_of (fst (scan img offset width height treeElevationPixelHandler (s, g))) s"
proof (rule scan_rule[where P = "\<lambda>st. fst st = tree_fields_of (fst st) s"])
  show "fst (s, g) = tree_fields_of (fst (s, g)) s" by (simp add: tree_fields_of_def)
next
  fix x y p and st :: "simulation \<times> (key \<rightharpoonup> pt)"
  assume "fst st = tree_fields_of (fst st) s"
  with treeElevationPixelHandler_frame[of x y p st]
  show "fst (treeElevationPixelHandler x y p st) =
          tree_fields_of (fst (treeElevationPixelHandler x y p st)) s"
    by (rule tree_fields_of_trans[rotated])
qed

lemma tree_scan_registry:
  assumes "D \<longrightarrow> gridHeight s \<in> \<int> \<and> offset \<in> \<int>" and "registry_wf D s" and "all_standing s"
  shows "registry_wf D (fst (scan img offset width height treeElevationPixelHandler (s, g))) \<and>
         all_standing (fst (scan img offset width height treeElevationPixelHandler (s, g)))"
proof -
  have "gridHeight (fst st) = gridHeight s \<and> registry_wf D (fst st) \<and> all_standing (fst st)"
    if "st = scan img offset width height treeElevationPixelHandler (s, g)" for st
    unfolding that
  proof (rule scan_rule_img[where P = "\<lambda>st. gridHeight (fst st) = gridHeight s \<and>
                                         registry_wf D (fst st) \<and> all_standing (fst st)"])
    show "gridHeight (fst (s, g)) = gridHeight s \<and> registry_wf D (fst (s, g)) \<and>
          all_standing (fst (s, g))"
      using assms by simp
  next
    fix cx cy and st :: "simulation \<times> (key \<rightharpoonup> pt)"
    define x :: rat where "x = of_int (\<lfloor>offset\<rfloor> + cx) - offset"
    define y :: rat where "y = of_int cy"
    define p where "p = img (\<lfloor>offset\<rfloor> + cx) cy"
    assume a: "gridHeight (fst st) = gridHeight s \<and> registry_wf D (fst st) \<and> all_standing (fst st)"
    have "gridHeight (fst (treeElevationPixelHandler x y p st)) = gridHeight (fst st)"
      by (subst treeElevationPixelHandler_frame) (simp add: tree_fields_of_def)
    moreover have "D \<longrightarrow> gridHeight (fst st) \<in> \<int> \<and> x \<in> \<int> \<and> y \<in> \<int>"
      using assms(1) a by (auto simp: x_def y_def Ints_diff_of_int)
    ultimately show "gridHeight (fst (treeElevationPixelHandler x y p st)) = gridHeight s \<and>
          registry_wf D (fst (treeElevationPixelHandler x y p st)) \<and>
          all_standing (fst (treeElevationPixelHandler x y p st))"
      using a treeElevationPixelHandler_registry[of D st x y p] by simp
  qed
  then show ?thesis by blast
qed

section \<open>The other bands\<close>

lemma black_scan_fst: "fst (scan img offset width height blackPixelHandler (s, g)) = s"
proof (rule scan_rule[where P = "\<lambda>st. fst st = s"])
  show "fst (s, g) = s" by simp
next
  fix x y p and st :: "simulation \<times> (key \<rightharpoonup> pt)"
  assume "fst st = s"
  then show "fst (blackPixelHandler x y p st) = s"
    by (cases st) (simp add: blackPixelHandler_def Let_def)
qed

lemma elevationPixelHandler_eq:
  "elevationPixelHandler x y p (s, g) =
     (s\<lparr>elevationValues := (if fst p \<in> set (elevationValues s) then elevationValues s
                              else elevationValues s @ [fst p])\<rparr>,
      AList.update (x, gridHeight s - y - 1)
        \<lparr>pt_x = x, pt_y = gridHeight s - y - 1,
         pt_key = (x, gridHeight s - y - 1), pt_z = fst p\<rparr> g)"
  by (simp add: elevationPixelHandler_def Let_def ImageXYtoGridXY_def xy2key_def)

lemma elevation_scan_props:
  fixes s :: simulation and g :: "(key \<times> zpt) list" and img :: image
    and offset width height :: rat
  assumes "grid_wf g" and "\<forall>k q. map_of g k = Some q \<longrightarrow> pt_z q \<in> set (elevationValues s)"
  defines "r \<equiv> scan img offset width height elevationPixelHandler (s, g)"
  shows "fst r = s\<lparr>elevationValues := elevationValues (fst r)\<rparr> \<and> grid_wf (snd r) \<and>
         (\<forall>k q. map_of (snd r) k = Some q \<longrightarrow> pt_z q \<in> set (elevationValues (fst r)))"
  unfolding r_def
proof (rule scan_rule[where P = "\<lambda>st. fst st = s\<lparr>elevationValues := elevationValues (fst st)\<rparr> \<and>
          grid_wf (snd st) \<and>
          (\<forall>k q. map_of (snd st) k = Some q \<longrightarrow> pt_z q \<in> set (elevationValues (fst st)))"])
  show "fst (s, g) = s\<lparr>elevationValues := elevationValues (fst (s, g))\<rparr> \<and> grid_wf (snd (s, g)) \<and>
        (\<forall>k q. map_of (snd (s, g)) k = Some q \<longrightarrow> pt_z q \<in> set (elevationValues (fst (s, g))))"
    using assms by simp
next
  fix x y p and st :: "simulation \<times> (key \<times> zpt) list"
  assume a: "fst st = s\<lparr>elevationValues := elevationValues (fst st)\<rparr> \<and> grid_wf (snd st) \<and>
          (\<forall>k q. map_of (snd st) k = Some q \<longrightarrow> pt_z q \<in> set (elevationValues (fst st)))"
  obtain s1 g1 where st: "st = (s1, g1)" by (cases st)
  from a have 1: "s1 = s\<lparr>elevationValues := elevationValues s1\<rparr>" and 2: "grid_wf g1"
    and 3: "\<forall>k q. map_of g1 k = Some q \<longrightarrow> pt_z q \<in> set (elevationValues s1)"
    by (simp_all add: st)
  define s2 where "s2 = fst (elevationPixelHandler x y p st)"
  define g2 where "g2 = snd (elevationPixelHandler x y p st)"
  have s2: "s2 = s1\<lparr>elevationValues := (if fst p \<in> set (elevationValues s1) then elevationValues s1
                              else elevationValues s1 @ [fst p])\<rparr>"
    and g2: "g2 = AList.update (x, gridHeight s1 - y - 1)
        \<lparr>pt_x = x, pt_y = gridHeight s1 - y - 1,
         pt_key = (x, gridHeight s1 - y - 1), pt_z = fst p\<rparr> g1"
    by (simp_all add: s2_def g2_def st elevationPixelHandler_eq)
  have e: "elevationValues s2 = (if fst p \<in> set (elevationValues s1) then elevationValues s1
                              else elevationValues s1 @ [fst p])"
    by (subst s2) simp
  have "s2 = s1\<lparr>elevationValues := elevationValues s2\<rparr>"
    unfolding e by (rule s2)
  also have "\<dots> = s\<lparr>elevationValues := elevationValues s2\<rparr>"
    by (subst 1) simp
  finally have "s2 = s\<lparr>elevationValues := elevationValues s2\<rparr>" .
  moreover have "grid_wf g2"
    using 2 by (auto simp: g2 grid_wf_def distinct_update update_conv')
  moreover have "\<forall>k q. map_of g2 k = Some q \<longrightarrow> pt_z q \<in> set (elevationValues s2)"
    using 3 by (auto simp: g2 e update_conv')
  ultimately show "fst (elevationPixelHandler x y p st) =
          s\<lparr>elevationValues := elevationValues (fst (elevationPixelHandler x y p st))\<rparr> \<and>
        grid_wf (snd (elevationPixelHandler x y p st)) \<and>
        (\<forall>k q. map_of (snd (elevationPixelHandler x y p st)) k = Some q \<longrightarrow>
           pt_z q \<in> set (elevationValues (fst (elevationPixelHandler x y p st))))"
    by (simp add: s2_def g2_def)
qed

lemma initialize_parse_shape:
  obtains G1 G2 G3 s4 r5 where
    "s4 = tree_fields_of s4
            ((initialize_begin c)\<lparr>gridnav := Some G1, ent_fow_blocker_node := Some G2,
                                   tools_no_wards := Some G3\<rparr>)"
    "\<And>D. (D \<longrightarrow> gridWidth c \<in> \<int> \<and> gridHeight c \<in> \<int>) \<Longrightarrow> registry_wf D s4 \<and> all_standing s4"
    "fst r5 = s4\<lparr>elevationValues := elevationValues (fst r5)\<rparr>"
    "grid_wf (snd r5)"
    "\<forall>k q. map_of (snd r5) k = Some q \<longrightarrow> pt_z q \<in> set (elevationValues (fst r5))"
    "r5 = scan img 0 (gridWidth c) (gridHeight c) elevationPixelHandler (s4, [])"
    "initialize_parse img (initialize_begin c) = (fst r5)\<lparr>elevationGrid := Some (snd r5)\<rparr>"
proof -
  define s0 where "s0 = initialize_begin c"
  define w where "w = gridWidth c"
  define h where "h = gridHeight c"
  define G1 where "G1 = snd (scan img (w * 2) w h blackPixelHandler (s0, Map.empty))"
  define s1 where "s1 = s0\<lparr>gridnav := Some G1\<rparr>"
  define G2 where "G2 = snd (scan img (w * 3) w h blackPixelHandler (s1, Map.empty))"
  define s2 where "s2 = s1\<lparr>ent_fow_blocker_node := Some G2\<rparr>"
  define G3 where "G3 = snd (scan img (w * 4) w h blackPixelHandler (s2, Map.empty))"
  define s3 where "s3 = s2\<lparr>tools_no_wards := Some G3\<rparr>"
  define s4 where "s4 = fst (scan img w w h treeElevationPixelHandler (s3, Map.empty))"
  define r5 where "r5 = scan img 0 w h elevationPixelHandler (s4, [])"
  have wh: "gridWidth s0 = w" "gridHeight s0 = h"
    by (simp_all add: s0_def w_def h_def initialize_begin_def)
  have ip: "initialize_parse img s0 = (fst r5)\<lparr>elevationGrid := Some (snd r5)\<rparr>"
    unfolding initialize_parse_def Let_def parseImage_def wh black_scan_fst
    by (simp add: r5_def s4_def s3_def G3_def s2_def G2_def s1_def G1_def)
  have s3: "s3 = s0\<lparr>gridnav := Some G1, ent_fow_blocker_node := Some G2, tools_no_wards := Some G3\<rparr>"
    by (simp add: s3_def s2_def s1_def)
  have f4: "s4 = tree_fields_of s4 s3"
    unfolding s4_def by (rule tree_scan_frame)
  have r4: "registry_wf D s4 \<and> all_standing s4"
    if "D \<longrightarrow> gridWidth c \<in> \<int> \<and> gridHeight c \<in> \<int>" for D
    unfolding s4_def
  proof (rule tree_scan_registry)
    show "D \<longrightarrow> gridHeight s3 \<in> \<int> \<and> w \<in> \<int>"
      using that by (simp add: s3 s0_def initialize_begin_def w_def)
    show "registry_wf D s3" by (simp add: s3 s0_def initialize_begin_def registry_wf_def)
    show "all_standing s3" by (simp add: s3 s0_def initialize_begin_def all_standing_def)
  qed
  have "elevationValues s4 = []"
    by (subst f4) (simp add: tree_fields_of_def s3 s0_def initialize_begin_def)
  then have e5: "fst r5 = s4\<lparr>elevationValues := elevationValues (fst r5)\<rparr> \<and> grid_wf (snd r5) \<and>
         (\<forall>k q. map_of (snd r5) k = Some q \<longrightarrow> pt_z q \<in> set (elevationValues (fst r5)))"
    unfolding r5_def by (intro elevation_scan_props) (simp_all add: grid_wf_def)
  show ?thesis
  proof (rule that)
    show "s4 = tree_fields_of s4
            ((initialize_begin c)\<lparr>gridnav := Some G1, ent_fow_blocker_node := Some G2,
                                   tools_no_wards := Some G3\<rparr>)"
      using f4 by (simp add: s3 s0_def)
    show "registry_wf D s4 \<and> all_standing s4"
      if "D \<longrightarrow> gridWidth c \<in> \<int> \<and> gridHeight c \<in> \<int>" for D
      using r4 that by simp
    show "fst r5 = s4\<lparr>elevationValues := elevationValues (fst r5)\<rparr>"
      using e5 by simp
    show "grid_wf (snd r5)" using e5 by simp
    show "\<forall>k q. map_of (snd r5) k = Some q \<longrightarrow> pt_z q \<in> set (elevationValues (fst r5))"
      using e5 by simp
    show "r5 = scan img 0 (gridWidth c) (gridHeight c) elevationPixelHandler (s4, [])"
      by (simp add: r5_def w_def h_def)
    show "initialize_parse img (initialize_begin c) = (fst r5)\<lparr>elevationGrid := Some (snd r5)\<rparr>"
      using ip by (simp add: s0_def)
  qed
qed

section \<open>Loops that may throw\<close>

lemma forEach_rule:
  assumes "P [] s"
    and "\<And>pre x post s. xs = pre @ x # post \<Longrightarrow> P pre s \<Longrightarrow> \<exists>s'. f x s = Inr s' \<and> P (pre @ [x]) s'"
  shows "\<exists>s'. forEach f xs s = Inr s' \<and> P xs s'"
proof -
  have "P pre s \<Longrightarrow> xs = pre @ ys \<Longrightarrow> \<exists>s'. forEach f ys s = Inr s' \<and> P xs s'" for pre ys s
  proof (induction ys arbitrary: pre s)
    case Nil
    then show ?case by simp
  next
    case (Cons y ys)
    from assms(2)[OF Cons.prems(2) Cons.prems(1)]
    obtain s1 where s1: "f y s = Inr s1" "P (pre @ [y]) s1" by blast
    from Cons.prems(2) have "xs = (pre @ [y]) @ ys" by simp
    from Cons.IH[OF s1(2) this] s1(1) show ?case by simp
  qed
  from this[of "[]" s xs] assms(1) show ?thesis by simp
qed

lemma forEach_frame:
  assumes "R s"
    and "\<And>x s s'. R s \<Longrightarrow> f x s = Inr s' \<Longrightarrow> R s'"
    and "\<And>x s e s'. R s \<Longrightarrow> f x s = Inl (e, s') \<Longrightarrow> R s'"
  shows "case forEach f xs s of Inl es \<Rightarrow> R (snd es) | Inr s' \<Rightarrow> R s'"
  using assms(1)
proof (induction xs arbitrary: s)
  case Nil
  then show ?case by simp
next
  case (Cons x xs)
  show ?case
  proof (cases "f x s")
    case (Inl es)
    obtain e s' where "es = (e, s')" by (cases es)
    with Inl assms(3)[OF Cons.prems, of x e s'] show ?thesis by simp
  next
    case (Inr s1)
    from assms(2)[OF Cons.prems Inr] have "R s1" .
    from Cons.IH[OF this] Inr show ?thesis by simp
  qed
qed

section \<open>Tree walls at initialization\<close>

lemma entry_simps [simp]:
  "entry Map.empty k = []" "tw k = Some ws \<Longrightarrow> entry tw k = ws" "tw k = None \<Longrightarrow> entry tw k = []"
  by (simp_all add: entry_def)

lemma fold_concat_wall:
  assumes "distinct (map kf cs)"
  shows "entry (fold (\<lambda>c. concat_wall w (kf c)) cs obj) k =
           (if k \<in> kf ` set cs then entry obj k @ [w] else entry obj k) \<and>
         (k \<in> kf ` set cs \<longrightarrow> fold (\<lambda>c. concat_wall w (kf c)) cs obj k \<noteq> None) \<and>
         (k \<notin> kf ` set cs \<longrightarrow> fold (\<lambda>c. concat_wall w (kf c)) cs obj k = obj k)"
  using assms
proof (induction cs arbitrary: obj)
  case Nil
  show ?case by simp
next
  case (Cons c cs)
  define obj1 where "obj1 = concat_wall w (kf c) obj"
  from Cons.prems have d: "distinct (map kf cs)" and n: "kf c \<notin> kf ` set cs" by auto
  have f: "fold (\<lambda>c. concat_wall w (kf c)) (c # cs) obj = fold (\<lambda>c. concat_wall w (kf c)) cs obj1"
    by (simp add: obj1_def)
  have o1: "entry obj1 k = (if k = kf c then entry obj k @ [w] else entry obj k)"
    "obj1 (kf c) \<noteq> None" "k \<noteq> kf c \<Longrightarrow> obj1 k = obj k"
    by (auto simp: obj1_def concat_wall_def entry_def)
  from Cons.IH[OF d, of obj1] n o1 show ?case
    unfolding f by auto
qed

lemma fold_concat_wall_set:
  "set (entry (fold (\<lambda>c. concat_wall w (kf c)) cs obj) k) =
           (if k \<in> kf ` set cs then insert w (set (entry obj k)) else set (entry obj k)) \<and>
         (k \<in> kf ` set cs \<longrightarrow> fold (\<lambda>c. concat_wall w (kf c)) cs obj k \<noteq> None) \<and>
         (k \<notin> kf ` set cs \<longrightarrow> fold (\<lambda>c. concat_wall w (kf c)) cs obj k = obj k)"
proof (induction cs arbitrary: obj)
  case Nil
  show ?case by simp
next
  case (Cons c cs)
  define obj1 where "obj1 = concat_wall w (kf c) obj"
  have f: "fold (\<lambda>c. concat_wall w (kf c)) (c # cs) obj = fold (\<lambda>c. concat_wall w (kf c)) cs obj1"
    by (simp add: obj1_def)
  have o1: "set (entry obj1 k) = (if k = kf c then insert w (set (entry obj k)) else set (entry obj k))"
    "obj1 (kf c) \<noteq> None" "k \<noteq> kf c \<Longrightarrow> obj1 k = obj k" "obj k \<noteq> None \<Longrightarrow> obj1 k \<noteq> None"
    by (auto simp: obj1_def concat_wall_def entry_def)
  from Cons.IH[of obj1] o1 show ?case
    unfolding f by (cases "k = kf c"; cases "k \<in> kf ` set cs") auto
qed

lemma tree_corners_key:
  "c \<in> set (tree_corners t) \<Longrightarrow> xy2key (pt_x c) (pt_y c) = pt_key c"
  by (auto simp: tree_corners_def xy2pt_def xy2key_def)

lemma tree_wall_eq_iff:
  "tree_wall (xy2pt a b) = tree_wall (xy2pt a' b') \<longleftrightarrow> (a, b) = (a', b')"
  by (simp add: tree_wall_def xy2pt_def)

lemma registry_wf_lookup:
  assumes "registry_wf D s" and "map_of (tree s) kt = Some t"
  shows "t = xy2pt (fst kt) (snd kt)" "tree_blocks s kt = Some (tree_corners t)"
    "D \<Longrightarrow> distinct (map pt_key (tree_corners t))" "tree_state s kt \<noteq> None"
    "tree_elevations s kt \<noteq> None" "pt_key t = kt" "(kt, t) \<in> set (tree s)"
proof -
  from assms show 1: "t = xy2pt (fst kt) (snd kt)" and "tree_blocks s kt = Some (tree_corners t)"
    and "D \<Longrightarrow> distinct (map pt_key (tree_corners t))" and "tree_state s kt \<noteq> None"
    and "tree_elevations s kt \<noteq> None"
    unfolding registry_wf_def by blast+
  from 1 show "pt_key t = kt" by (simp add: xy2pt_def)
  from assms(2) show "(kt, t) \<in> set (tree s)" by (rule map_of_SomeD)
qed

lemma registry_wf_inj:
  assumes "registry_wf D s" and "map_of (tree s) kt = Some t" and "map_of (tree s) kt' = Some t'"
    and "tree_wall t = tree_wall t'"
  shows "kt = kt' \<and> t = t'"
proof -
  from registry_wf_lookup(1)[OF assms(1,2)] registry_wf_lookup(1)[OF assms(1,3)] assms(4)
  have "(fst kt, snd kt) = (fst kt', snd kt')"
    by (simp add: tree_wall_def xy2pt_def)
  then have "kt = kt'" by (simp add: prod_eq_iff)
  with assms(2,3) show ?thesis by simp
qed

text \<open>Keys are pairs; from here on the simplifier leaves quantifiers over them alone.\<close>

declare split_paired_All [simp del] split_paired_Ex [simp del]

lemma js_lt_iff: "js_lt L m \<longleftrightarrow> (\<exists>e. m = Some e \<and> L < e)"
  by (cases m) (simp_all add: js_lt_def)

lemma setTreeWalls_walls_ok:
  assumes wf: "registry_wf D s" and st: "all_standing s"
  shows "\<exists>tw. setTreeWalls Map.empty L (tree s) (tree_elevations s) (tree_state s) (tree_blocks s)
                = Inr tw \<and> walls_ok D s L tw"
proof -
  define Q where "Q pre k = {t. \<exists>kt. (kt, t) \<in> set pre \<and> js_lt L (tree_elevations s kt) \<and>
                               k \<in> pt_key ` set (tree_corners t)}" for pre :: "(key \<times> pt) list" and k
  define P where "P pre obj \<longleftrightarrow>
      (\<forall>k. (D \<longrightarrow> distinct (entry obj k)) \<and> set (entry obj k) = tree_wall ` Q pre k) \<and>
      (\<forall>kt t. (kt, t) \<in> set pre \<longrightarrow> js_lt L (tree_elevations s kt) \<longrightarrow>
         (\<forall>c \<in> set (tree_corners t). obj (pt_key c) \<noteq> None))"
    for pre :: "(key \<times> pt) list" and obj :: "key \<rightharpoonup> wall list"
  from wf have dk: "distinct (map fst (tree s))" by (simp add: registry_wf_def)
  have P0: "P [] Map.empty" by (simp add: P_def Q_def)
  have step: "\<exists>obj'. setTreeWalls_body L (tree_elevations s) (tree_state s) (tree_blocks s) x obj
                  = Inr obj' \<and> P (pre @ [x]) obj'"
    if xs: "tree s = pre @ x # post" and Pp: "P pre obj" for pre x post obj
  proof -
    from Pp have Pp1: "\<And>k. D \<Longrightarrow> distinct (entry obj k)"
      "\<And>k. set (entry obj k) = tree_wall ` Q pre k"
      and Pp2: "\<And>kt t c. (kt, t) \<in> set pre \<Longrightarrow> js_lt L (tree_elevations s kt) \<Longrightarrow>
                  c \<in> set (tree_corners t) \<Longrightarrow> obj (pt_key c) \<noteq> None"
      unfolding P_def by blast+
    obtain i t where x: "x = (i, t)" by (cases x)
    from xs x have "(i, t) \<in> set (tree s)" by simp
    with dk have mo: "map_of (tree s) i = Some t" by simp
    note r = registry_wf_lookup[OF wf mo]
    from st mo have standing: "tree_state s i = Some True" unfolding all_standing_def by blast
    from dk xs x have fresh: "i \<notin> fst ` set pre" by auto
    show ?thesis
    proof (cases "js_lt L (tree_elevations s i)")
      case False
      then have "setTreeWalls_body L (tree_elevations s) (tree_state s) (tree_blocks s) x obj = Inr obj"
        by (simp add: setTreeWalls_body_def x)
      moreover have "Q (pre @ [x]) k = Q pre k" for k
        using False by (auto simp: Q_def x)
      then have "P (pre @ [x]) obj"
        unfolding P_def using Pp1 Pp2 False by (auto simp: x)
      ultimately show ?thesis by blast
    next
      case True
      define w where "w = tree_wall t"
      define obj' where "obj' = fold (\<lambda>c. concat_wall w (pt_key c)) (tree_corners t) obj"
      have "fold (\<lambda>p. concat_wall (tree_wall t) (xy2key (pt_x p) (pt_y p))) (tree_corners t) obj = obj'"
        unfolding obj'_def w_def
        by (rule fold_cong) (simp_all add: tree_corners_key)
      then have run: "setTreeWalls_body L (tree_elevations s) (tree_state s) (tree_blocks s) x obj
                        = Inr obj'"
        using True standing r(2) by (simp add: setTreeWalls_body_def x truthy_def)
      note fc = fold_concat_wall_set[where kf = pt_key and cs = "tree_corners t" and w = w
          and obj = obj, folded obj'_def]
      have Qx: "Q (pre @ [x]) k = Q pre k \<union> (if k \<in> pt_key ` set (tree_corners t) then {t} else {})"
        for k using True by (auto simp: Q_def x)
      have notin: "w \<notin> set (entry obj k)" for k
      proof
        assume "w \<in> set (entry obj k)"
        with Pp1(2)[of k] obtain t' where "t' \<in> Q pre k" "tree_wall t' = w" by auto
        then obtain kt' where k': "(kt', t') \<in> set pre" by (auto simp: Q_def)
        with xs have "(kt', t') \<in> set (tree s)" by simp
        with dk have "map_of (tree s) kt' = Some t'" by simp
        from registry_wf_inj[OF wf this mo] \<open>tree_wall t' = w\<close> have "kt' = i" by (simp add: w_def)
        with k' fresh show False by force
      qed
      have "(D \<longrightarrow> distinct (entry obj' k)) \<and> set (entry obj' k) = tree_wall ` Q (pre @ [x]) k" for k
      proof
        show "D \<longrightarrow> distinct (entry obj' k)"
        proof
          assume D
          from fold_concat_wall[OF r(3)[OF \<open>D\<close>], of w obj k, folded obj'_def]
            Pp1(1)[OF \<open>D\<close>, of k] notin[of k]
          show "distinct (entry obj' k)" by auto
        qed
        show "set (entry obj' k) = tree_wall ` Q (pre @ [x]) k"
          using fc[of k] Pp1(2)[of k] by (auto simp: Qx w_def)
      qed
      moreover have "obj' (pt_key c) \<noteq> None"
        if "(kt, t') \<in> set (pre @ [x])" "js_lt L (tree_elevations s kt)" "c \<in> set (tree_corners t')"
        for kt t' c
      proof (cases "pt_key c \<in> pt_key ` set (tree_corners t)")
        case True
        with fc[of "pt_key c"] show ?thesis by simp
      next
        case False
        with that have "(kt, t') \<in> set pre" by (auto simp: x)
        with Pp2 that have "obj (pt_key c) \<noteq> None" by blast
        with fc[of "pt_key c"] False show ?thesis by simp
      qed
      ultimately have "P (pre @ [x]) obj'" unfolding P_def by blast
      with run show ?thesis by blast
    qed
  qed
  have "\<exists>tw. forEach (setTreeWalls_body L (tree_elevations s) (tree_state s) (tree_blocks s))
               (tree s) Map.empty = Inr tw \<and> P (tree s) tw"
  proof (rule forEach_rule)
    show "P [] Map.empty" by (rule P0)
  next
    fix pre x post obj
    assume "tree s = pre @ x # post" "P pre obj"
    then show "\<exists>obj'. setTreeWalls_body L (tree_elevations s) (tree_state s) (tree_blocks s) x obj
                  = Inr obj' \<and> P (pre @ [x]) obj'"
      by (rule step)
  qed
  then obtain tw where tw: "setTreeWalls Map.empty L (tree s) (tree_elevations s) (tree_state s)
                         (tree_blocks s) = Inr tw" and Ptw: "P (tree s) tw"
    unfolding setTreeWalls_def by blast
  have Qeq: "Q (tree s) k = qualifying s L k" for k
  proof (rule set_eqI, rule iffI)
    fix t assume "t \<in> Q (tree s) k"
    then obtain kt where kt: "(kt, t) \<in> set (tree s)" "js_lt L (tree_elevations s kt)"
      "k \<in> pt_key ` set (tree_corners t)" by (auto simp: Q_def)
    from kt(1) dk have mo: "map_of (tree s) kt = Some t" by simp
    from st mo have "tree_state s kt = Some True" unfolding all_standing_def by blast
    with mo kt registry_wf_lookup(2)[OF wf mo] show "t \<in> qualifying s L k"
      unfolding qualifying_def js_lt_iff by force
  next
    fix t assume "t \<in> qualifying s L k"
    then obtain kt where mo: "map_of (tree s) kt = Some t"
      and e: "\<exists>e. tree_elevations s kt = Some e \<and> L < e"
      and k: "k \<in> pt_key ` set (case tree_blocks s kt of None \<Rightarrow> [] | Some blks \<Rightarrow> blks)"
      unfolding qualifying_def by blast
    from k registry_wf_lookup(2)[OF wf mo] have "k \<in> pt_key ` set (tree_corners t)" by simp
    with registry_wf_lookup(7)[OF wf mo] e show "t \<in> Q (tree s) k"
      unfolding Q_def js_lt_iff by blast
  qed
  have 1: "\<forall>k. (D \<longrightarrow> distinct (entry tw k)) \<and> set (entry tw k) = tree_wall ` qualifying s L k"
    using Ptw unfolding P_def Qeq by blast
  have 2: "\<forall>kt t. map_of (tree s) kt = Some t \<longrightarrow> js_lt L (tree_elevations s kt) \<longrightarrow>
             (\<forall>c \<in> set (tree_corners t). tw (pt_key c) \<noteq> None)"
    using Ptw registry_wf_lookup(7)[OF wf] unfolding P_def by blast
  from 1 2 have "walls_ok D s L tw" unfolding walls_ok_def by blast
  with tw show ?thesis by blast
qed

lemma qualifying_cong:
  assumes "tree s' = tree s" "tree_state s' = tree_state s"
    "tree_elevations s' = tree_elevations s" "tree_blocks s' = tree_blocks s"
  shows "qualifying s' = qualifying s"
  unfolding qualifying_def assms ..

lemma walls_ok_cong:
  assumes "tree s' = tree s" "tree_state s' = tree_state s"
    "tree_elevations s' = tree_elevations s" "tree_blocks s' = tree_blocks s"
  shows "walls_ok D s' = walls_ok D s"
  unfolding walls_ok_def qualifying_cong[OF assms] assms(1,3) ..

lemma registry_wf_cong:
  assumes "tree s' = tree s" "tree_state s' = tree_state s"
    "tree_elevations s' = tree_elevations s" "tree_blocks s' = tree_blocks s"
    "tree_relations s' = tree_relations s"
  shows "registry_wf D s' = registry_wf D s"
  unfolding registry_wf_def assms ..

lemma init_treeWalls_loop:
  assumes wf: "registry_wf D s" and st: "all_standing s" and e: "treeWalls s = Map.empty"
  shows "\<exists>s'. forEach init_treeWalls evs s = Inr s' \<and> s' = s\<lparr>treeWalls := treeWalls s'\<rparr> \<and>
              (\<forall>L. treeWalls s' L \<noteq> None \<longrightarrow> L \<in> set evs) \<and>
              (\<forall>L \<in> set evs. \<exists>tw. treeWalls s' L = Some tw \<and> walls_ok D s L tw)"
proof (rule forEach_rule[where P = "\<lambda>pre s'. s' = s\<lparr>treeWalls := treeWalls s'\<rparr> \<and>
              (\<forall>L. treeWalls s' L \<noteq> None \<longrightarrow> L \<in> set pre) \<and>
              (\<forall>L \<in> set pre. \<exists>tw. treeWalls s' L = Some tw \<and> walls_ok D s L tw)"])
  show "s = s\<lparr>treeWalls := treeWalls s\<rparr> \<and> (\<forall>L. treeWalls s L \<noteq> None \<longrightarrow> L \<in> set []) \<and>
        (\<forall>L \<in> set []. \<exists>tw. treeWalls s L = Some tw \<and> walls_ok D s L tw)"
    by (simp add: e)
next
  fix pre L post s1
  assume "evs = pre @ L # post"
    and a: "s1 = s\<lparr>treeWalls := treeWalls s1\<rparr> \<and> (\<forall>L. treeWalls s1 L \<noteq> None \<longrightarrow> L \<in> set pre) \<and>
            (\<forall>L \<in> set pre. \<exists>tw. treeWalls s1 L = Some tw \<and> walls_ok D s L tw)"
  from a have f: "s1 = s\<lparr>treeWalls := treeWalls s1\<rparr>" by blast
  have same: "tree s1 = tree s" "tree_state s1 = tree_state s"
    "tree_elevations s1 = tree_elevations s" "tree_blocks s1 = tree_blocks s"
    by (subst f, simp)+
  from setTreeWalls_walls_ok[OF wf st, of L] obtain tw where
    tw: "setTreeWalls Map.empty L (tree s) (tree_elevations s) (tree_state s) (tree_blocks s) = Inr tw"
    and ok: "walls_ok D s L tw" by blast
  define s2 where "s2 = s1\<lparr>treeWalls := (treeWalls s1)(L \<mapsto> tw)\<rparr>"
  have run: "init_treeWalls L s1 = Inr s2"
    by (simp add: init_treeWalls_def same tw s2_def)
  have t2: "treeWalls s2 = (treeWalls s1)(L \<mapsto> tw)" by (simp add: s2_def)
  have "s2 = s\<lparr>treeWalls := treeWalls s2\<rparr>"
    unfolding t2 s2_def by (subst f) simp
  moreover have "\<forall>L'. treeWalls s2 L' \<noteq> None \<longrightarrow> L' \<in> set (pre @ [L])"
    using a by (auto simp: t2)
  moreover have "\<forall>L' \<in> set (pre @ [L]). \<exists>tw. treeWalls s2 L' = Some tw \<and> walls_ok D s L' tw"
    using a ok by (auto simp: t2)
  ultimately show "\<exists>s'. init_treeWalls L s1 = Inr s' \<and> (s' = s\<lparr>treeWalls := treeWalls s'\<rparr> \<and>
            (\<forall>La. treeWalls s' La \<noteq> None \<longrightarrow> La \<in> set (pre @ [L])) \<and>
            (\<forall>La \<in> set (pre @ [L]). \<exists>tw. treeWalls s' La = Some tw \<and> walls_ok D s La tw))"
    using run by blast
qed

lemma init_treeWalls_frame:
  "case forEach init_treeWalls evs s of
     Inl es \<Rightarrow> snd es = s\<lparr>treeWalls := treeWalls (snd es)\<rparr>
   | Inr s' \<Rightarrow> s' = s\<lparr>treeWalls := treeWalls s'\<rparr>"
proof (rule forEach_frame[where R = "\<lambda>s'. s' = s\<lparr>treeWalls := treeWalls s'\<rparr>"])
  show "s = s\<lparr>treeWalls := treeWalls s\<rparr>" by simp
next
  fix x s1 s'
  assume a: "s1 = s\<lparr>treeWalls := treeWalls s1\<rparr>" and r: "init_treeWalls x s1 = Inr s'"
  from r obtain tw where "s' = s1\<lparr>treeWalls := tw\<rparr>"
    by (auto simp: init_treeWalls_def split: sum.splits prod.splits)
  then show "s' = s\<lparr>treeWalls := treeWalls s'\<rparr>" by (subst (asm) a) simp
next
  fix x s1 e s'
  assume a: "s1 = s\<lparr>treeWalls := treeWalls s1\<rparr>" and r: "init_treeWalls x s1 = Inl (e, s')"
  from r obtain tw where "s' = s1\<lparr>treeWalls := tw\<rparr>"
    by (auto simp: init_treeWalls_def split: sum.splits prod.splits)
  then show "s' = s\<lparr>treeWalls := treeWalls s'\<rparr>" by (subst (asm) a) simp
qed

text \<open>The loaded instance differs from the parsed one in the fields the rest of the load
  callback writes.\<close>

lemma loaded_instance_shape:
  "\<exists>tw g b. loaded_instance c img kc =
     (initialize_parse img (initialize_begin c))\<lparr>treeWalls := tw, grid := g, ready := b\<rparr>"
proof -
  define sp where "sp = initialize_parse img (initialize_begin c)"
  note fr = init_treeWalls_frame[where evs = "elevationValues sp" and s = sp]
  show ?thesis
  proof (cases "forEach init_treeWalls (elevationValues sp) sp")
    case (Inl es)
    define tw0 where "tw0 = treeWalls (snd es)"
    from Inl fr have "snd es = sp\<lparr>treeWalls := tw0\<rparr>" by (simp add: tw0_def)
    moreover from Inl have "loaded_instance c img kc = snd es"
      by (simp add: loaded_instance_def initialize_def initialize_loaded_def sp_def)
    ultimately have "loaded_instance c img kc =
        sp\<lparr>treeWalls := tw0, grid := grid sp, ready := ready sp\<rparr>"
      by simp
    then show ?thesis unfolding sp_def by blast
  next
    case (Inr s6)
    define tw0 where "tw0 = treeWalls s6"
    define g0 where "g0 = prime_points (gridWidth s6) (gridHeight s6)"
    from Inr fr have "s6 = sp\<lparr>treeWalls := tw0\<rparr>" by (simp add: tw0_def)
    moreover from Inr have "loaded_instance c img kc = s6\<lparr>grid := g0, ready := True\<rparr>"
      by (simp add: loaded_instance_def initialize_def initialize_loaded_def sp_def g0_def)
    ultimately have "loaded_instance c img kc = sp\<lparr>treeWalls := tw0, grid := g0, ready := True\<rparr>"
      by simp
    then show ?thesis unfolding sp_def by blast
  qed
qed

lemma loaded_instance_terrain: "terrain_inv (loaded_instance c img kc)"
proof -
  obtain G1 G2 G3 s4 r5 where
    s4: "s4 = tree_fields_of s4
            ((initialize_begin c)\<lparr>gridnav := Some G1, ent_fow_blocker_node := Some G2,
                                   tools_no_wards := Some G3\<rparr>)"
    and f5: "fst r5 = s4\<lparr>elevationValues := elevationValues (fst r5)\<rparr>"
    and g5: "grid_wf (snd r5)"
    and z5: "\<forall>k q. map_of (snd r5) k = Some q \<longrightarrow> pt_z q \<in> set (elevationValues (fst r5))"
    and sp: "initialize_parse img (initialize_begin c) = (fst r5)\<lparr>elevationGrid := Some (snd r5)\<rparr>"
    by (rule initialize_parse_shape[of c img]) blast
  from loaded_instance_shape[of c img kc] obtain tw g b where
    li: "loaded_instance c img kc = (fst r5)\<lparr>elevationGrid := Some (snd r5), treeWalls := tw,
                                              grid := g, ready := b\<rparr>"
    unfolding sp by auto
  have ew: "elevationWalls (fst r5) = Map.empty" and fb: "ent_fow_blocker_node (fst r5) = Some G2"
    by (subst f5, subst s4, simp add: tree_fields_of_def initialize_begin_def)+
  have "walls_cached (loaded_instance c img kc)"
    unfolding walls_cached_def li using g5 ew by simp
  moreover have "ent_fow_blocker_node (loaded_instance c img kc) \<noteq> None"
    unfolding li using fb by simp
  moreover have "\<forall>k z. elevation_at (loaded_instance c img kc) k = Some z \<longrightarrow>
                   z \<in> set (elevationValues (loaded_instance c img kc))"
    unfolding li using z5 by (auto simp: elevation_at_def)
  ultimately show ?thesis unfolding terrain_inv_def by blast
qed

lemma initialize_ok:
  assumes "D \<longrightarrow> gridWidth c \<in> \<int> \<and> gridHeight c \<in> \<int>"
  shows "\<exists>kc'. initialize c (Some img) kc = Inr (loaded_instance c img kc, kc')"
    and "trees_inv D (loaded_instance c img kc)"
    and "ready (loaded_instance c img kc)"
proof -
  obtain G1 G2 G3 s4 r5 where
    s4: "s4 = tree_fields_of s4
            ((initialize_begin c)\<lparr>gridnav := Some G1, ent_fow_blocker_node := Some G2,
                                   tools_no_wards := Some G3\<rparr>)"
    and r4: "(D \<longrightarrow> gridWidth c \<in> \<int> \<and> gridHeight c \<in> \<int>) \<Longrightarrow>
               registry_wf D s4 \<and> all_standing s4"
    and f5: "fst r5 = s4\<lparr>elevationValues := elevationValues (fst r5)\<rparr>"
    and sp: "initialize_parse img (initialize_begin c) = (fst r5)\<lparr>elevationGrid := Some (snd r5)\<rparr>"
    by (rule initialize_parse_shape[of c img]) blast
  define sp where "sp = initialize_parse img (initialize_begin c)"
  have spe: "sp = s4\<lparr>elevationValues := elevationValues (fst r5), elevationGrid := Some (snd r5)\<rparr>"
    unfolding sp_def sp by (subst f5) simp
  have same: "tree sp = tree s4" "tree_state sp = tree_state s4"
    "tree_elevations sp = tree_elevations s4" "tree_blocks sp = tree_blocks s4"
    "tree_relations sp = tree_relations s4"
    by (simp_all add: spe)
  have wf: "registry_wf D sp"
    using r4[OF assms] by (simp add: registry_wf_cong[OF same])
  have st: "all_standing sp"
    using r4[OF assms] by (simp add: all_standing_def same)
  have "treeWalls s4 = Map.empty"
    by (subst s4) (simp add: tree_fields_of_def initialize_begin_def)
  then have e: "treeWalls sp = Map.empty" by (simp add: spe)
  from init_treeWalls_loop[OF wf st e, where evs = "elevationValues sp"] obtain s6 where
    run: "forEach init_treeWalls (elevationValues sp) sp = Inr s6"
    and f6: "s6 = sp\<lparr>treeWalls := treeWalls s6\<rparr>"
    and d6: "\<forall>L. treeWalls s6 L \<noteq> None \<longrightarrow> L \<in> set (elevationValues sp)"
    and w6: "\<forall>L \<in> set (elevationValues sp). \<exists>tw. treeWalls s6 L = Some tw \<and> walls_ok D sp L tw"
    by blast
  define s7 where "s7 = s6\<lparr>grid := prime_points (gridWidth s6) (gridHeight s6), ready := True\<rparr>"
  have li: "loaded_instance c img kc = s7"
    using run by (simp add: loaded_instance_def initialize_def initialize_loaded_def sp_def s7_def)
  show "\<exists>kc'. initialize c (Some img) kc = Inr (loaded_instance c img kc, kc')"
    unfolding li using run by (simp add: initialize_def initialize_loaded_def sp_def s7_def)
  have s7: "s7 = sp\<lparr>treeWalls := treeWalls s6, grid := grid s7, ready := True\<rparr>"
    unfolding s7_def by (subst f6) simp
  have same7: "tree s7 = tree sp" "tree_state s7 = tree_state sp"
    "tree_elevations s7 = tree_elevations sp" "tree_blocks s7 = tree_blocks sp"
    "tree_relations s7 = tree_relations sp"
    by (subst s7, simp)+
  have ev7: "elevationValues s7 = elevationValues sp" and tw7: "treeWalls s7 = treeWalls s6"
    by (subst s7, simp)+
  have "registry_wf D s7" using wf by (simp add: registry_wf_cong[OF same7])
  moreover have "treeWalls_inv D s7"
    unfolding treeWalls_inv_def ev7 tw7 walls_ok_cong[OF same7(1-4)] using d6 w6 by blast
  ultimately show "trees_inv D (loaded_instance c img kc)"
    unfolding li trees_inv_def by blast
  show "ready (loaded_instance c img kc)" unfolding li s7_def by simp
qed

lemma initialize_returns:
  shows "\<exists>kc'. initialize c (Some img) kc = Inr (loaded_instance c img kc, kc')"
    and "trees_inv False (loaded_instance c img kc)"
    and "ready (loaded_instance c img kc)"
  using initialize_ok[where D = False and c = c and img = img and kc = kc] by simp_all

section \<open>What the operations leave alone\<close>

lemma toggle_elevation_frame:
  assumes "toggle_elevation p L s = Inr s' \<or> toggle_elevation p L s = Inl (e, s')"
  shows "\<exists>tw. s' = s\<lparr>treeWalls := tw\<rparr>"
proof -
  have same: "s' = s \<Longrightarrow> ?thesis"
    by (rule exI[of _ "treeWalls s"]) simp
  show ?thesis
  proof (cases "js_lt L (tree_elevations s (pt_key p))")
    case False
    with assms have "s' = s" by (simp add: toggle_elevation_def)
    then show ?thesis by (rule same)
  next
    case lt: True
    show ?thesis
    proof (cases "tree_blocks s (pt_key p)")
      case None
      with lt assms have "s' = s" by (simp add: toggle_elevation_def)
      then show ?thesis by (rule same)
    next
      case blks: (Some blks)
      show ?thesis
      proof (cases "treeWalls s L")
        case None
        with lt blks assms have "s' = s" by (simp add: toggle_elevation_def)
        then show ?thesis by (rule same)
      next
        case tw: (Some tw)
        show ?thesis
        proof (cases "forEach (remove_walls p) blks tw")
          case (Inl etw)
          with lt blks tw assms have "s' = s\<lparr>treeWalls := (treeWalls s)(L \<mapsto> snd etw)\<rparr>"
            by (simp add: toggle_elevation_def)
          then show ?thesis by blast
        next
          case (Inr tw1)
          with lt blks tw assms have "s' = s\<lparr>treeWalls := (treeWalls s)(L \<mapsto>
                              (if truthy (tree_state s (pt_key p))
                               then fold (insert_wall p) blks tw1 else tw1))\<rparr>"
            by (simp add: toggle_elevation_def)
          then show ?thesis by blast
        qed
      qed
    qed
  qed
qed

lemma toggle_one_frame:
  "case toggle_one p s of
     Inl es \<Rightarrow> \<exists>ts tw. snd es = s\<lparr>tree_state := ts, treeWalls := tw\<rparr>
   | Inr s' \<Rightarrow> \<exists>ts tw. s' = s\<lparr>tree_state := ts, treeWalls := tw\<rparr>"
  unfolding toggle_one_def
proof (rule forEach_frame[where R = "\<lambda>s'. \<exists>ts tw. s' = s\<lparr>tree_state := ts, treeWalls := tw\<rparr>"])
  show "\<exists>ts tw. s\<lparr>tree_state := (tree_state s)(pt_key p \<mapsto> \<not> truthy (tree_state s (pt_key p)))\<rparr> =
          s\<lparr>tree_state := ts, treeWalls := tw\<rparr>"
    by (rule exI[of _ "(tree_state s)(pt_key p \<mapsto> \<not> truthy (tree_state s (pt_key p)))"],
        rule exI[of _ "treeWalls s"]) simp
next
  fix x s1 s'
  assume "\<exists>ts tw. s1 = s\<lparr>tree_state := ts, treeWalls := tw\<rparr>" "toggle_elevation p x s1 = Inr s'"
  then obtain ts tw tw' where "s1 = s\<lparr>tree_state := ts, treeWalls := tw\<rparr>" "s' = s1\<lparr>treeWalls := tw'\<rparr>"
    using toggle_elevation_frame[of p x s1 s'] by blast
  then have "s' = s\<lparr>tree_state := ts, treeWalls := tw'\<rparr>" by simp
  then show "\<exists>ts tw. s' = s\<lparr>tree_state := ts, treeWalls := tw\<rparr>" by blast
next
  fix x s1 e s'
  assume "\<exists>ts tw. s1 = s\<lparr>tree_state := ts, treeWalls := tw\<rparr>" "toggle_elevation p x s1 = Inl (e, s')"
  then obtain ts tw tw' where "s1 = s\<lparr>tree_state := ts, treeWalls := tw\<rparr>" "s' = s1\<lparr>treeWalls := tw'\<rparr>"
    using toggle_elevation_frame[of p x s1 s' e] by blast
  then have "s' = s\<lparr>tree_state := ts, treeWalls := tw'\<rparr>" by simp
  then show "\<exists>ts tw. s' = s\<lparr>tree_state := ts, treeWalls := tw\<rparr>" by blast
qed

lemma toggle_one_frame':
  assumes "toggle_one p s = Inr s' \<or> toggle_one p s = Inl (e, s')"
  shows "\<exists>ts tw. s' = s\<lparr>tree_state := ts, treeWalls := tw\<rparr>"
proof (cases "toggle_one p s")
  case (Inl es)
  with assms have "snd es = s'" by auto
  with toggle_one_frame[where p = p and s = s] Inl show ?thesis by simp
next
  case (Inr s1)
  with assms have "s1 = s'" by auto
  with toggle_one_frame[where p = p and s = s] Inr show ?thesis by simp
qed

lemma toggleTree_frame:
  "\<exists>ts tw. step compute s (ToggleTree x y) = s\<lparr>tree_state := ts, treeWalls := tw\<rparr>"
proof (cases "tree_relations s (xy2key x y)")
  case None
  then have "step compute s (ToggleTree x y) = s" by (simp add: toggleTree_def)
  then show ?thesis
    by (intro exI[of _ "tree_state s"] exI[of _ "treeWalls s"]) simp
next
  case (Some treePts)
  have fr: "case forEach toggle_one treePts s of
          Inl es \<Rightarrow> \<exists>ts tw. snd es = s\<lparr>tree_state := ts, treeWalls := tw\<rparr>
        | Inr s' \<Rightarrow> \<exists>ts tw. s' = s\<lparr>tree_state := ts, treeWalls := tw\<rparr>"
  proof (rule forEach_frame[where R = "\<lambda>s'. \<exists>ts tw. s' = s\<lparr>tree_state := ts, treeWalls := tw\<rparr>"])
    show "\<exists>ts tw. s = s\<lparr>tree_state := ts, treeWalls := tw\<rparr>"
      by (intro exI[of _ "tree_state s"] exI[of _ "treeWalls s"]) simp
  next
    fix p s1 s'
    assume "\<exists>ts tw. s1 = s\<lparr>tree_state := ts, treeWalls := tw\<rparr>" and r: "toggle_one p s1 = Inr s'"
    then obtain ts tw where 1: "s1 = s\<lparr>tree_state := ts, treeWalls := tw\<rparr>" by blast
    from toggle_one_frame'[where p = p and s = s1 and s' = s'] r obtain ts' tw' where
      2: "s' = s1\<lparr>tree_state := ts', treeWalls := tw'\<rparr>" by blast
    have "s' = s\<lparr>tree_state := ts', treeWalls := tw'\<rparr>" unfolding 2 1 by simp
    then show "\<exists>ts tw. s' = s\<lparr>tree_state := ts, treeWalls := tw\<rparr>" by blast
  next
    fix p s1 e s'
    assume "\<exists>ts tw. s1 = s\<lparr>tree_state := ts, treeWalls := tw\<rparr>" and r: "toggle_one p s1 = Inl (e, s')"
    then obtain ts tw where 1: "s1 = s\<lparr>tree_state := ts, treeWalls := tw\<rparr>" by blast
    from toggle_one_frame'[where p = p and s = s1 and s' = s' and e = e] r obtain ts' tw' where
      2: "s' = s1\<lparr>tree_state := ts', treeWalls := tw'\<rparr>" by blast
    have "s' = s\<lparr>tree_state := ts', treeWalls := tw'\<rparr>" unfolding 2 1 by simp
    then show "\<exists>ts tw. s' = s\<lparr>tree_state := ts, treeWalls := tw\<rparr>" by blast
  qed
  show ?thesis
  proof (cases "forEach toggle_one treePts s")
    case (Inl es)
    with Some have "step compute s (ToggleTree x y) = snd es" by (simp add: toggleTree_def)
    with fr Inl show ?thesis by simp
  next
    case (Inr s')
    with Some have "step compute s (ToggleTree x y) = s'" by (simp add: toggleTree_def)
    with fr Inr show ?thesis by simp
  qed
qed

lemma updateVisibility_no_entry:
  assumes "elevation_at s (xy2key gX gY) = None"
  shows "updateVisibility compute s gX gY rad = Inl (TypeError, s)"
  using assms by (auto simp: updateVisibility_def elevation_at_def split: option.splits)

lemma updateVisibility_state:
  assumes eg: "elevationGrid s = Some eg" and p: "map_of eg (gX, gY) = Some p"
  shows "\<exists>l a la. state_after (updateVisibility compute s gX gY rad) =
           (updateVisibility_begin s eg (pt_z p))\<lparr>lights := l, area := a, lightArea := la\<rparr>"
proof -
  define s3 where "s3 = updateVisibility_begin s eg (pt_z p)"
  define res where "res = compute (treeWalls s (pt_z p)) (lightPassesCallback s3) gX gY
                            (js_or rad (radius s))"
  have uv: "updateVisibility compute s gX gY rad =
     (case forEach visibility_callback (fov_visits res) s3 of
        Inl es \<Rightarrow> Inl es
      | Inr s4 \<Rightarrow> (case fov_return res of
           Inl e \<Rightarrow> Inl (e, s4)
         | Inr a \<Rightarrow> Inr (s4\<lparr>area := a, lightArea := Some (length (lights s4))\<rparr>)))"
    unfolding updateVisibility_def s3_def res_def by (simp add: eg p xy2key_def)
  have "\<exists>l a la. state_after (updateVisibility compute s gX gY rad) =
          s3\<lparr>lights := l, area := a, lightArea := la\<rparr>"
  proof (cases "forEach visibility_callback (fov_visits res) s3")
    case (Inl es)
    obtain e s4 where es: "es = (e, s4)" by (cases es)
    define l where "l = lights s4"
    from forEach_callback_Inl[OF Inl[unfolded es]] have "s4 = s3\<lparr>lights := l\<rparr>"
      unfolding l_def .
    then have "s4 = s3\<lparr>lights := l, area := area s3, lightArea := lightArea s3\<rparr>"
      by simp
    with Inl es have "state_after (updateVisibility compute s gX gY rad) =
        s3\<lparr>lights := l, area := area s3, lightArea := lightArea s3\<rparr>"
      unfolding uv state_after_def by simp
    then show ?thesis by blast
  next
    case (Inr s4)
    define l where "l = lights s4"
    from forEach_callback_Inr[OF Inr] have s4: "s4 = s3\<lparr>lights := l\<rparr>"
      unfolding l_def by blast
    show ?thesis
    proof (cases "fov_return res")
      case (Inl e)
      then have "state_after (updateVisibility compute s gX gY rad) =
          s3\<lparr>lights := l, area := area s3, lightArea := lightArea s3\<rparr>"
        unfolding uv Inr state_after_def by (simp add: s4)
      then show ?thesis by blast
    next
      case (Inr a)
      then have "state_after (updateVisibility compute s gX gY rad) =
          s3\<lparr>lights := l, area := a, lightArea := Some (length (lights s4))\<rparr>"
        unfolding uv \<open>forEach visibility_callback (fov_visits res) s3 = Inr s4\<close> state_after_def
        by (simp add: s4)
      then show ?thesis by blast
    qed
  qed
  then show ?thesis unfolding s3_def .
qed

section \<open>The elevation-wall cache on a loaded instance\<close>

lemma elevation_at_conv:
  "elevationGrid s = Some eg \<Longrightarrow> elevation_at s = map_option pt_z \<circ> map_of eg"
  by (simp add: elevation_at_def fun_eq_iff)

lemma elevation_at_SomeD:
  assumes "elevation_at s k = Some E"
  obtains eg p where "elevationGrid s = Some eg" "map_of eg k = Some p" "pt_z p = E"
  using assms by (auto simp: elevation_at_def split: option.splits)


lemma step_terrain_inv:
  assumes "terrain_inv s"
  shows "terrain_inv (step compute s call)"
proof (cases call)
  case (SetRadius r)
  with assms show ?thesis
    by (simp add: terrain_inv_def walls_cached_def elevation_at_def setRadius_def)
next
  case (ToggleTree x y)
  from toggleTree_frame[of compute s x y] obtain ts tw where
    "step compute s (ToggleTree x y) = s\<lparr>tree_state := ts, treeWalls := tw\<rparr>" by blast
  with assms ToggleTree show ?thesis
    by (simp add: terrain_inv_def walls_cached_def elevation_at_def)
next
  case (UpdateVisibility gX gY rad)
  show ?thesis
  proof (cases "elevation_at s (gX, gY)")
    case None
    then have "updateVisibility compute s gX gY rad = Inl (TypeError, s)"
      by (intro updateVisibility_no_entry) (simp add: xy2key_def)
    with assms UpdateVisibility show ?thesis by (simp add: state_after_def)
  next
    case (Some E)
    then obtain eg p where eg: "elevationGrid s = Some eg" and p: "map_of eg (gX, gY) = Some p"
      by (auto elim: elevation_at_SomeD)
    from assms eg have wf: "grid_wf eg"
      and c: "\<forall>E w. elevationWalls s E = Some w \<longrightarrow> w = generateElevationWalls eg E"
      and fb: "ent_fow_blocker_node s \<noteq> None"
      and ev: "\<forall>k z. elevation_at s k = Some z \<longrightarrow> z \<in> set (elevationValues s)"
      by (simp_all add: terrain_inv_def walls_cached_def)
    define s1 where "s1 = step compute s call"
    from updateVisibility_state[OF eg p, of compute rad] obtain l a la where
      s1: "s1 = (updateVisibility_begin s eg (pt_z p))\<lparr>lights := l, area := a, lightArea := la\<rparr>"
      unfolding s1_def UpdateVisibility by auto
    have "elevationGrid s1 = Some eg" "ent_fow_blocker_node s1 = ent_fow_blocker_node s"
      "elevationValues s1 = elevationValues s"
      and ew: "elevationWalls s1 = (if elevationWalls s (pt_z p) = None
          then (elevationWalls s)(pt_z p \<mapsto> generateElevationWalls eg (pt_z p))
          else elevationWalls s)"
      by (simp_all add: s1 updateVisibility_begin_def eg)
    moreover from this eg have "elevation_at s1 = elevation_at s"
      by (simp add: elevation_at_def fun_eq_iff)
    moreover have "\<forall>E w. elevationWalls s1 E = Some w \<longrightarrow> w = generateElevationWalls eg E"
      using c by (auto simp: ew split: if_splits)
    ultimately have "terrain_inv s1"
      unfolding terrain_inv_def walls_cached_def using wf fb ev by simp
    then show ?thesis by (simp add: s1_def)
  qed
qed

lemma run_terrain_inv:
  assumes "terrain_inv s"
  shows "terrain_inv (run compute s calls)"
  using assms unfolding run_def
  by (induction calls arbitrary: s) (simp_all add: step_terrain_inv)




section \<open>Toggling a tree\<close>

lemma splice_loop_filter:
  "n \<le> length ws \<Longrightarrow>
   splice_loop p n ws = filter (\<lambda>w. \<not> matches p w) (take n ws) @ drop n ws"
proof (induction n arbitrary: ws)
  case 0
  show ?case by simp
next
  case (Suc n)
  then have n: "n < length ws" by simp
  have tk: "take (Suc n) ws = take n ws @ [ws ! n]"
    using n by (simp add: take_Suc_conv_app_nth)
  show ?case
  proof (cases "matches p (ws ! n)")
    case True
    define ws' where "ws' = take n ws @ drop (Suc n) ws"
    have l: "n \<le> length ws'" using n by (simp add: ws'_def)
    have "splice_loop p (Suc n) ws = splice_loop p n ws'"
      using True by (auto simp: matches_def ws'_def)
    also have "\<dots> = filter (\<lambda>w. \<not> matches p w) (take n ws') @ drop n ws'"
      by (rule Suc.IH[OF l])
    also have "take n ws' = take n ws" using n by (simp add: ws'_def)
    also have "drop n ws' = drop (Suc n) ws" using n by (simp add: ws'_def)
    finally show ?thesis using True by (simp add: tk)
  next
    case False
    have "splice_loop p (Suc n) ws = splice_loop p n ws"
      using False by (auto simp: matches_def)
    also have "\<dots> = filter (\<lambda>w. \<not> matches p w) (take n ws) @ drop n ws"
      using n by (intro Suc.IH) simp
    also have "drop n ws = ws ! n # drop (Suc n) ws"
      using n by (simp add: Cons_nth_drop_Suc)
    finally show ?thesis using False by (simp add: tk)
  qed
qed

lemma remove_walls_loop:
  assumes "\<forall>c \<in> set blks. tw (pt_key c) \<noteq> None"
  shows "\<exists>tw1. forEach (remove_walls p) blks tw = Inr tw1 \<and>
           (\<forall>k. entry tw1 k = (if k \<in> pt_key ` set blks
                                then filter (\<lambda>w. \<not> matches p w) (entry tw k) else entry tw k) \<and>
                (tw1 k \<noteq> None \<longleftrightarrow> tw k \<noteq> None))"
  using assms
proof (induction blks arbitrary: tw)
  case Nil
  show ?case by simp
next
  case (Cons c blks)
  from Cons.prems obtain ws where ws: "tw (pt_key c) = Some ws" by auto
  define tw0 where "tw0 = tw(pt_key c \<mapsto> filter (\<lambda>w. \<not> matches p w) ws)"
  have r: "remove_walls p c tw = Inr tw0"
    by (simp add: remove_walls_def ws tw0_def splice_loop_filter)
  have e0: "entry tw0 k = (if k = pt_key c then filter (\<lambda>w. \<not> matches p w) (entry tw k)
                           else entry tw k)"
    and d0: "tw0 k \<noteq> None \<longleftrightarrow> tw k \<noteq> None" for k
    using ws by (auto simp: tw0_def entry_def)
  from Cons.prems d0 have "\<forall>c \<in> set blks. tw0 (pt_key c) \<noteq> None" by simp
  from Cons.IH[OF this] obtain tw1 where
    f: "forEach (remove_walls p) blks tw0 = Inr tw1"
    and e1: "\<And>k. entry tw1 k = (if k \<in> pt_key ` set blks
                then filter (\<lambda>w. \<not> matches p w) (entry tw0 k) else entry tw0 k)"
    and d1: "\<And>k. tw1 k \<noteq> None \<longleftrightarrow> tw0 k \<noteq> None"
    by blast
  have "forEach (remove_walls p) (c # blks) tw = Inr tw1" using r f by simp
  moreover have "entry tw1 k = (if k \<in> pt_key ` set (c # blks)
                then filter (\<lambda>w. \<not> matches p w) (entry tw k) else entry tw k)" for k
    by (simp add: e1 e0)
  moreover have "tw1 k \<noteq> None \<longleftrightarrow> tw k \<noteq> None" for k
    using d1 d0 by simp
  ultimately show ?case by blast
qed

lemma matches_tree_wall:
  assumes "registry_wf D s" and "map_of (tree s) kp = Some p" and "map_of (tree s) kt = Some t"
  shows "matches p (tree_wall t) \<longleftrightarrow> t = p"
proof
  assume "matches p (tree_wall t)"
  then have "tree_wall p = tree_wall t" by (simp add: matches_def tree_wall_def)
  from registry_wf_inj[OF assms(1,2,3) this] show "t = p" by simp
next
  assume "t = p"
  then show "matches p (tree_wall t)" by (simp add: matches_def tree_wall_def)
qed

lemma qualifying_registered:
  "t \<in> qualifying s L k \<Longrightarrow> \<exists>kt. map_of (tree s) kt = Some t"
  unfolding qualifying_def by blast

lemma qualifying_iff:
  assumes "registry_wf D s"
  shows "t \<in> qualifying (s\<lparr>tree_state := st\<rparr>) L k \<longleftrightarrow>
           map_of (tree s) (pt_key t) = Some t \<and> st (pt_key t) = Some True \<and>
           js_lt L (tree_elevations s (pt_key t)) \<and> k \<in> pt_key ` set (tree_corners t)"
proof
  assume "t \<in> qualifying (s\<lparr>tree_state := st\<rparr>) L k"
  then obtain kt where mo: "map_of (tree s) kt = Some t" and s: "st kt = Some True"
    and e: "\<exists>e. tree_elevations s kt = Some e \<and> L < e"
    and k: "k \<in> pt_key ` set (case tree_blocks s kt of None \<Rightarrow> [] | Some blks \<Rightarrow> blks)"
    unfolding qualifying_def by auto
  note r = registry_wf_lookup[OF assms mo]
  from mo s e k show "map_of (tree s) (pt_key t) = Some t \<and> st (pt_key t) = Some True \<and>
           js_lt L (tree_elevations s (pt_key t)) \<and> k \<in> pt_key ` set (tree_corners t)"
    unfolding r(6) js_lt_iff by (simp add: r(2))
next
  assume a: "map_of (tree s) (pt_key t) = Some t \<and> st (pt_key t) = Some True \<and>
           js_lt L (tree_elevations s (pt_key t)) \<and> k \<in> pt_key ` set (tree_corners t)"
  then have mo: "map_of (tree s) (pt_key t) = Some t" by simp
  note r = registry_wf_lookup[OF assms mo]
  from a show "t \<in> qualifying (s\<lparr>tree_state := st\<rparr>) L k"
    unfolding qualifying_def js_lt_iff
    by (auto simp: r(2) intro!: exI[of _ "pt_key t"])
qed

lemma walls_okI:
  assumes "\<And>k. D \<Longrightarrow> distinct (entry tw k)" and "\<And>k. set (entry tw k) = tree_wall ` qualifying s L k"
    and "\<And>kt t c. map_of (tree s) kt = Some t \<Longrightarrow> js_lt L (tree_elevations s kt) \<Longrightarrow>
           c \<in> set (tree_corners t) \<Longrightarrow> tw (pt_key c) \<noteq> None"
  shows "walls_ok D s L tw"
  unfolding walls_ok_def using assms by blast

lemma walls_okD:
  assumes "walls_ok D s L tw"
  shows "D \<Longrightarrow> distinct (entry tw k)" and "set (entry tw k) = tree_wall ` qualifying s L k"
    and "map_of (tree s) kt = Some t \<Longrightarrow> js_lt L (tree_elevations s kt) \<Longrightarrow>
           c \<in> set (tree_corners t) \<Longrightarrow> tw (pt_key c) \<noteq> None"
  using assms unfolding walls_ok_def by blast+

lemma toggle_elevation_ok:
  assumes wf: "registry_wf D s" and mo: "map_of (tree s) kp = Some p"
    and tw: "treeWalls s L = Some tw"
    and ok0: "walls_ok D (s\<lparr>tree_state := st0\<rparr>) L tw"
    and st0: "\<forall>k. k \<noteq> kp \<longrightarrow> st0 k = tree_state s k"
  shows "\<exists>tw'. toggle_elevation p L s = Inr (s\<lparr>treeWalls := (treeWalls s)(L \<mapsto> tw')\<rparr>) \<and>
               walls_ok D s L tw'"
proof -
  note r = registry_wf_lookup[OF wf mo]
  define CK where "CK = pt_key ` set (tree_corners p)"
  define standing where "standing = truthy (tree_state s kp)"
  have ss: "s\<lparr>tree_state := tree_state s\<rparr> = s" by simp
  note q0 = qualifying_iff[OF wf, of _ st0 L]
  note q1 = qualifying_iff[OF wf, of _ "tree_state s" L, unfolded ss]
  note e0 = walls_okD(1,2)[OF ok0]
  have d0: "tw (pt_key c) \<noteq> None"
    if "map_of (tree s) kt = Some t" "js_lt L (tree_elevations s kt)" "c \<in> set (tree_corners t)"
    for kt t c
    using walls_okD(3)[OF ok0, of kt t c] that by simp
  have other: "t \<in> qualifying s L k \<longleftrightarrow> t \<in> qualifying (s\<lparr>tree_state := st0\<rparr>) L k"
    if "t \<noteq> p" for t k
  proof -
    have "st0 (pt_key t) = tree_state s (pt_key t)" if "map_of (tree s) (pt_key t) = Some t"
      using that \<open>t \<noteq> p\<close> mo st0 by (cases "pt_key t = kp") auto
    then show ?thesis unfolding q0 q1 by auto
  qed
  show ?thesis
  proof (cases "js_lt L (tree_elevations s kp)")
    case False
    have "toggle_elevation p L s = Inr s"
      using False by (simp add: toggle_elevation_def r(6))
    moreover have "s\<lparr>treeWalls := (treeWalls s)(L \<mapsto> tw)\<rparr> = s"
      using tw by (simp add: map_upd_triv)
    moreover have "qualifying s L k = qualifying (s\<lparr>tree_state := st0\<rparr>) L k" for k
    proof (rule set_eqI)
      fix t show "t \<in> qualifying s L k \<longleftrightarrow> t \<in> qualifying (s\<lparr>tree_state := st0\<rparr>) L k"
      proof (cases "t = p")
        case True
        with False r(6) show ?thesis unfolding q0 q1 by simp
      next
        case False
        then show ?thesis by (rule other)
      qed
    qed
    then have "walls_ok D s L tw"
      using e0 d0 by (intro walls_okI) auto
    ultimately show ?thesis by (intro exI[of _ tw]) simp
  next
    case lt: True
    from d0[OF mo lt] have "\<forall>c \<in> set (tree_corners p). tw (pt_key c) \<noteq> None" by blast
    from remove_walls_loop[OF this, of p] obtain tw1 where
      f1: "forEach (remove_walls p) (tree_corners p) tw = Inr tw1"
      and e1: "\<And>k. entry tw1 k = (if k \<in> CK then filter (\<lambda>w. \<not> matches p w) (entry tw k)
                                    else entry tw k)"
      and d1: "\<And>k. tw1 k \<noteq> None \<longleftrightarrow> tw k \<noteq> None"
      unfolding CK_def by blast
    define tw2 where "tw2 = fold (\<lambda>c. concat_wall (tree_wall p) (pt_key c)) (tree_corners p) tw1"
    have ins: "fold (insert_wall p) (tree_corners p) tw1 = tw2"
      unfolding tw2_def by (rule fold_cong) (simp_all add: insert_wall_def fun_eq_iff)
    note fc = fold_concat_wall_set[where kf = pt_key and cs = "tree_corners p"
        and w = "tree_wall p" and obj = tw1, folded tw2_def CK_def]
    define tw' where "tw' = (if standing then tw2 else tw1)"
    have run: "toggle_elevation p L s = Inr (s\<lparr>treeWalls := (treeWalls s)(L \<mapsto> tw')\<rparr>)"
      using lt by (simp add: toggle_elevation_def r(6) r(2) tw f1 ins tw'_def standing_def)
    have e': "entry tw' k = (if k \<in> CK
                then filter (\<lambda>w. \<not> matches p w) (entry tw k) @ (if standing then [tree_wall p] else [])
                else entry tw k)" if D for k
      using fold_concat_wall[OF r(3)[OF that], of "tree_wall p" tw1 k, folded tw2_def CK_def]
      by (simp add: tw'_def e1)
    have se': "set (entry tw' k) = (if k \<in> CK
                then set (filter (\<lambda>w. \<not> matches p w) (entry tw k)) \<union>
                     (if standing then {tree_wall p} else {})
                else set (entry tw k))" for k
      using fc[of k] by (simp add: tw'_def e1 del: set_filter)
    have d': "tw k \<noteq> None \<Longrightarrow> tw' k \<noteq> None" for k
      using fc[of k] d1[of k] by (cases "k \<in> CK") (auto simp: tw'_def)
    have mp: "matches p (tree_wall p)" by (simp add: matches_def tree_wall_def)
    have flt: "set (filter (\<lambda>w. \<not> matches p w) (entry tw k)) =
                 tree_wall ` (qualifying (s\<lparr>tree_state := st0\<rparr>) L k - {p})" for k
    proof (rule set_eqI, rule iffI)
      fix w assume "w \<in> set (filter (\<lambda>w. \<not> matches p w) (entry tw k))"
      then have w: "w \<in> set (entry tw k)" "\<not> matches p w" by simp_all
      from w(1) obtain t where t: "t \<in> qualifying (s\<lparr>tree_state := st0\<rparr>) L k" "w = tree_wall t"
        unfolding e0(2) by blast
      with w(2) mp have "t \<noteq> p" by auto
      with t show "w \<in> tree_wall ` (qualifying (s\<lparr>tree_state := st0\<rparr>) L k - {p})" by blast
    next
      fix w assume "w \<in> tree_wall ` (qualifying (s\<lparr>tree_state := st0\<rparr>) L k - {p})"
      then obtain t where t: "t \<in> qualifying (s\<lparr>tree_state := st0\<rparr>) L k" "t \<noteq> p" "w = tree_wall t"
        by blast
      from t(1) have "map_of (tree s) (pt_key t) = Some t" unfolding q0 by simp
      from matches_tree_wall[OF wf mo this] t(2) have "\<not> matches p w" by (simp add: t(3))
      moreover from t have "w \<in> set (entry tw k)" unfolding e0(2) by blast
      ultimately show "w \<in> set (filter (\<lambda>w. \<not> matches p w) (entry tw k))" by simp
    qed
    have pq: "p \<in> qualifying s L k \<longleftrightarrow> standing \<and> k \<in> CK" for k
      unfolding q1 using mo lt r(6)
      by (cases "tree_state s kp") (auto simp: standing_def truthy_def CK_def)
    have split: "qualifying s L k =
        (qualifying (s\<lparr>tree_state := st0\<rparr>) L k - {p}) \<union> (if standing \<and> k \<in> CK then {p} else {})"
      for k
    proof (rule set_eqI)
      fix t
      show "t \<in> qualifying s L k \<longleftrightarrow>
            t \<in> (qualifying (s\<lparr>tree_state := st0\<rparr>) L k - {p}) \<union>
                 (if standing \<and> k \<in> CK then {p} else {})"
      proof (cases "t = p")
        case True
        then show ?thesis using pq[of k] by simp
      next
        case False
        with other[OF False, of k] show ?thesis by simp
      qed
    qed
    have p0: "p \<notin> qualifying (s\<lparr>tree_state := st0\<rparr>) L k" if "k \<notin> CK" for k
      using that unfolding q0 CK_def by simp
    have "walls_ok D s L tw'"
    proof (rule walls_okI)
      fix k
      show "distinct (entry tw' k)" if D
        using e0(1)[OF that, of k] by (auto simp: e'[OF that] mp)
      show "set (entry tw' k) = tree_wall ` qualifying s L k"
      proof (cases "k \<in> CK")
        case True
        then have "set (entry tw' k) =
            set (filter (\<lambda>w. \<not> matches p w) (entry tw k)) \<union>
            (if standing then {tree_wall p} else {})"
          by (simp only: se' if_True)
        also have "\<dots> = tree_wall ` qualifying s L k"
          unfolding flt split using True by auto
        finally show ?thesis .
      next
        case False
        with p0[OF False] show ?thesis unfolding split by (simp add: se' e0(2))
      qed
    next
      fix kt t c
      assume "map_of (tree s) kt = Some t" "js_lt L (tree_elevations s kt)" "c \<in> set (tree_corners t)"
      then have "tw (pt_key c) \<noteq> None" by (rule d0)
      then show "tw' (pt_key c) \<noteq> None" by (rule d')
    qed
    with run show ?thesis by blast
  qed
qed

lemma registry_wf_flip:
  assumes "registry_wf D s"
  shows "registry_wf D (s\<lparr>tree_state := flip kp (tree_state s)\<rparr>)"
proof -
  have "tree_state s kt \<noteq> None \<Longrightarrow> flip kp (tree_state s) kt \<noteq> None" for kt
    by (simp add: flip_def)
  with assms show ?thesis unfolding registry_wf_def
    by (simp del: map_of_eq_Some_iff)
qed

lemma toggle_one_ok:
  assumes wf: "registry_wf D s" and inv: "treeWalls_inv D s" and mo: "map_of (tree s) kp = Some p"
  shows "\<exists>tw. toggle_one p s = Inr (s\<lparr>tree_state := flip kp (tree_state s), treeWalls := tw\<rparr>) \<and>
              treeWalls_inv D (s\<lparr>tree_state := flip kp (tree_state s), treeWalls := tw\<rparr>)"
proof -
  note r = registry_wf_lookup[OF wf mo]
  define sf where "sf = s\<lparr>tree_state := flip kp (tree_state s)\<rparr>"
  define EV where "EV = elevationValues s"
  have wf_sf: "registry_wf D sf" unfolding sf_def by (rule registry_wf_flip[OF wf])
  have mo_sf: "map_of (tree sf) kp = Some p" using mo by (simp add: sf_def)
  have t1: "toggle_one p s = forEach (toggle_elevation p) EV sf"
    by (simp add: toggle_one_def sf_def flip_def r(6) EV_def)
  define P where "P pre s1 \<longleftrightarrow>
      (\<exists>twm. s1 = sf\<lparr>treeWalls := twm\<rparr> \<and> (\<forall>L. twm L \<noteq> None \<longrightarrow> L \<in> set EV) \<and>
        (\<forall>L \<in> set EV. \<exists>tw st0. twm L = Some tw \<and> walls_ok D (sf\<lparr>tree_state := st0\<rparr>) L tw \<and>
                           (\<forall>k. k \<noteq> kp \<longrightarrow> st0 k = tree_state sf k)) \<and>
        (\<forall>L \<in> set pre. \<exists>tw. twm L = Some tw \<and> walls_ok D sf L tw))"
    for pre :: "int list" and s1
  have same_regs: "walls_ok D (sf\<lparr>treeWalls := twm\<rparr>) = walls_ok D sf"
    "walls_ok D (sf\<lparr>treeWalls := twm, tree_state := st\<rparr>) = walls_ok D (sf\<lparr>tree_state := st\<rparr>)"
    "registry_wf D (sf\<lparr>treeWalls := twm\<rparr>) = registry_wf D sf" for twm st
    by (rule walls_ok_cong, simp_all)+ (rule registry_wf_cong, simp_all)
  have P0: "P [] sf"
  proof -
    have "\<exists>tw st0. treeWalls sf L = Some tw \<and> walls_ok D (sf\<lparr>tree_state := st0\<rparr>) L tw \<and>
                           (\<forall>k. k \<noteq> kp \<longrightarrow> st0 k = tree_state sf k)" if "L \<in> set EV" for L
    proof -
      from inv that obtain tw where tw: "treeWalls s L = Some tw" "walls_ok D s L tw"
        unfolding treeWalls_inv_def EV_def by blast
      have "sf\<lparr>tree_state := tree_state s\<rparr> = s" by (simp add: sf_def)
      with tw have "treeWalls sf L = Some tw \<and> walls_ok D (sf\<lparr>tree_state := tree_state s\<rparr>) L tw \<and>
                     (\<forall>k. k \<noteq> kp \<longrightarrow> tree_state s k = tree_state sf k)"
        by (simp add: sf_def flip_def)
      then show ?thesis by blast
    qed
    moreover have "\<forall>L. treeWalls sf L \<noteq> None \<longrightarrow> L \<in> set EV"
      using inv unfolding treeWalls_inv_def EV_def by (simp add: sf_def)
    moreover have "sf = sf\<lparr>treeWalls := treeWalls sf\<rparr>" by simp
    ultimately show ?thesis unfolding P_def by (intro exI[of _ "treeWalls sf"]) simp
  qed
  have step: "\<exists>s2. toggle_elevation p L s1 = Inr s2 \<and> P (pre @ [L]) s2"
    if xs: "EV = pre @ L # post" and Pp: "P pre s1" for pre L post s1
  proof -
    from Pp obtain twm where s1: "s1 = sf\<lparr>treeWalls := twm\<rparr>"
      and dm: "\<forall>L. twm L \<noteq> None \<longrightarrow> L \<in> set EV"
      and al: "\<forall>L \<in> set EV. \<exists>tw st0. twm L = Some tw \<and> walls_ok D (sf\<lparr>tree_state := st0\<rparr>) L tw \<and>
                           (\<forall>k. k \<noteq> kp \<longrightarrow> st0 k = tree_state sf k)"
      and dn: "\<forall>L \<in> set pre. \<exists>tw. twm L = Some tw \<and> walls_ok D sf L tw"
      unfolding P_def by blast
    from xs have LE: "L \<in> set EV" by simp
    with al obtain tw st0 where tw: "twm L = Some tw"
      and ok0: "walls_ok D (sf\<lparr>tree_state := st0\<rparr>) L tw"
      and st0: "\<forall>k. k \<noteq> kp \<longrightarrow> st0 k = tree_state sf k" by blast
    have "\<exists>tw'. toggle_elevation p L s1 = Inr (s1\<lparr>treeWalls := (treeWalls s1)(L \<mapsto> tw')\<rparr>) \<and>
               walls_ok D s1 L tw'"
    proof (rule toggle_elevation_ok)
      show "registry_wf D s1" unfolding s1 same_regs by (rule wf_sf)
      show "map_of (tree s1) kp = Some p" using mo_sf by (simp add: s1)
      show "treeWalls s1 L = Some tw" using tw by (simp add: s1)
      show "walls_ok D (s1\<lparr>tree_state := st0\<rparr>) L tw" using ok0 by (simp add: s1 same_regs)
      show "\<forall>k. k \<noteq> kp \<longrightarrow> st0 k = tree_state s1 k" using st0 by (simp add: s1)
    qed
    then obtain tw' where run: "toggle_elevation p L s1 = Inr (sf\<lparr>treeWalls := twm(L \<mapsto> tw')\<rparr>)"
      and ok': "walls_ok D sf L tw'"
      by (auto simp: s1 same_regs)
    have sfs: "sf\<lparr>tree_state := tree_state sf\<rparr> = sf" by simp
    have "\<forall>L'. (twm(L \<mapsto> tw')) L' \<noteq> None \<longrightarrow> L' \<in> set EV"
      using dm LE by auto
    moreover have "\<forall>L' \<in> set EV. \<exists>tw st0. (twm(L \<mapsto> tw')) L' = Some tw \<and>
          walls_ok D (sf\<lparr>tree_state := st0\<rparr>) L' tw \<and> (\<forall>k. k \<noteq> kp \<longrightarrow> st0 k = tree_state sf k)"
    proof
      fix L' assume "L' \<in> set EV"
      show "\<exists>tw st0. (twm(L \<mapsto> tw')) L' = Some tw \<and>
          walls_ok D (sf\<lparr>tree_state := st0\<rparr>) L' tw \<and> (\<forall>k. k \<noteq> kp \<longrightarrow> st0 k = tree_state sf k)"
      proof (cases "L' = L")
        case True
        with ok' sfs show ?thesis
          by (intro exI[of _ tw'] exI[of _ "tree_state sf"]) simp
      next
        case False
        with al \<open>L' \<in> set EV\<close> show ?thesis by simp
      qed
    qed
    moreover have "\<forall>L' \<in> set (pre @ [L]). \<exists>tw. (twm(L \<mapsto> tw')) L' = Some tw \<and> walls_ok D sf L' tw"
      using dn ok' by auto
    ultimately have "P (pre @ [L]) (sf\<lparr>treeWalls := twm(L \<mapsto> tw')\<rparr>)"
      unfolding P_def by blast
    with run show ?thesis by blast
  qed
  have "\<exists>s'. forEach (toggle_elevation p) EV sf = Inr s' \<and> P EV s'"
  proof (rule forEach_rule)
    show "P [] sf" by (rule P0)
  next
    fix pre L post s1
    assume "EV = pre @ L # post" "P pre s1"
    then show "\<exists>s'. toggle_elevation p L s1 = Inr s' \<and> P (pre @ [L]) s'" by (rule step)
  qed
  then obtain s' twm where run: "toggle_one p s = Inr s'" and s': "s' = sf\<lparr>treeWalls := twm\<rparr>"
    and dm: "\<forall>L. twm L \<noteq> None \<longrightarrow> L \<in> set EV"
    and dn: "\<forall>L \<in> set EV. \<exists>tw. twm L = Some tw \<and> walls_ok D sf L tw"
    unfolding t1 P_def by blast
  have eq: "s' = s\<lparr>tree_state := flip kp (tree_state s), treeWalls := twm\<rparr>"
    by (simp add: s' sf_def)
  have "treeWalls_inv D s'"
    unfolding treeWalls_inv_def using dm dn
    by (simp add: s' same_regs) (simp add: sf_def EV_def)
  with run show ?thesis unfolding eq by blast
qed

lemma trees_inv_cong:
  assumes "tree s' = tree s" "tree_state s' = tree_state s"
    "tree_elevations s' = tree_elevations s" "tree_blocks s' = tree_blocks s"
    "tree_relations s' = tree_relations s" "treeWalls s' = treeWalls s"
    "elevationValues s' = elevationValues s"
  shows "trees_inv D s' = trees_inv D s"
  unfolding trees_inv_def treeWalls_inv_def registry_wf_cong[OF assms(1-5)]
    walls_ok_cong[OF assms(1-4)] assms(6,7) ..

lemma toggleTree_ok:
  assumes inv: "trees_inv D s"
  shows "\<exists>tw. toggleTree s x y =
           Inr (tree_relations s (x, y) \<noteq> None,
                s\<lparr>tree_state := fold (\<lambda>p. flip (pt_key p))
                                  (case tree_relations s (x, y) of None \<Rightarrow> [] | Some l \<Rightarrow> l)
                                  (tree_state s),
                  treeWalls := tw\<rparr>) \<and>
           trees_inv D (s\<lparr>tree_state := fold (\<lambda>p. flip (pt_key p))
                                  (case tree_relations s (x, y) of None \<Rightarrow> [] | Some l \<Rightarrow> l)
                                  (tree_state s),
                  treeWalls := tw\<rparr>)"
proof (cases "tree_relations s (x, y)")
  case None
  have "s\<lparr>tree_state := tree_state s, treeWalls := treeWalls s\<rparr> = s" by simp
  with None inv show ?thesis
    by (intro exI[of _ "treeWalls s"]) (simp add: toggleTree_def xy2key_def)
next
  case (Some treePts)
  from inv have wf: "registry_wf D s" by (simp add: trees_inv_def)
  define P where "P pre s1 \<longleftrightarrow>
     (\<exists>tw. s1 = s\<lparr>tree_state := fold (\<lambda>p. flip (pt_key p)) pre (tree_state s), treeWalls := tw\<rparr>) \<and>
     trees_inv D s1" for pre :: "pt list" and s1
  have "\<exists>s'. forEach toggle_one treePts s = Inr s' \<and> P treePts s'"
  proof (rule forEach_rule)
    have "s = s\<lparr>tree_state := tree_state s, treeWalls := treeWalls s\<rparr>" by simp
    then have "\<exists>tw. s = s\<lparr>tree_state := tree_state s, treeWalls := tw\<rparr>"
      by (rule exI[of _ "treeWalls s"])
    with inv show "P [] s" unfolding P_def by simp
  next
    fix pre p post s1
    assume xs: "treePts = pre @ p # post" and Pp: "P pre s1"
    from Pp obtain tw where
      s1: "s1 = s\<lparr>tree_state := fold (\<lambda>p. flip (pt_key p)) pre (tree_state s), treeWalls := tw\<rparr>"
      and inv1: "trees_inv D s1" unfolding P_def by blast
    from xs have "p \<in> set treePts" by simp
    with wf Some have "map_of (tree s) (pt_key p) = Some p"
      unfolding registry_wf_def by blast
    then have mo: "map_of (tree s1) (pt_key p) = Some p" by (simp add: s1)
    from inv1 have wf1: "registry_wf D s1" and tw1: "treeWalls_inv D s1"
      by (simp_all add: trees_inv_def)
    from toggle_one_ok[OF wf1 tw1 mo] obtain tw' where
      run: "toggle_one p s1 = Inr (s1\<lparr>tree_state := flip (pt_key p) (tree_state s1), treeWalls := tw'\<rparr>)"
      and ti: "treeWalls_inv D (s1\<lparr>tree_state := flip (pt_key p) (tree_state s1), treeWalls := tw'\<rparr>)"
      by blast
    define s2 where "s2 = s1\<lparr>tree_state := flip (pt_key p) (tree_state s1), treeWalls := tw'\<rparr>"
    have "registry_wf D s2 = registry_wf D (s1\<lparr>tree_state := flip (pt_key p) (tree_state s1)\<rparr>)"
      by (rule registry_wf_cong) (simp_all add: s2_def)
    with registry_wf_flip[OF wf1] have "registry_wf D s2" by simp
    with ti have inv2: "trees_inv D s2" by (simp add: trees_inv_def s2_def)
    have "s2 = s\<lparr>tree_state := fold (\<lambda>p. flip (pt_key p)) (pre @ [p]) (tree_state s),
                 treeWalls := tw'\<rparr>"
      unfolding s2_def s1 by simp
    with inv2 have "P (pre @ [p]) s2" unfolding P_def by blast
    with run show "\<exists>s'. toggle_one p s1 = Inr s' \<and> P (pre @ [p]) s'"
      unfolding s2_def by blast
  qed
  then obtain s' tw where run: "forEach toggle_one treePts s = Inr s'"
    and s': "s' = s\<lparr>tree_state := fold (\<lambda>p. flip (pt_key p)) treePts (tree_state s), treeWalls := tw\<rparr>"
    and inv': "trees_inv D s'" unfolding P_def by blast
  from run Some have "toggleTree s x y = Inr (True, s')"
    by (simp add: toggleTree_def xy2key_def)
  with inv' Some show ?thesis unfolding s' by (intro exI[of _ tw]) simp
qed

lemma step_trees_inv:
  assumes "trees_inv D s"
  shows "trees_inv D (step compute s call)"
proof (cases call)
  case (SetRadius r)
  have "trees_inv D (setRadius s r) = trees_inv D s"
    by (rule trees_inv_cong) (simp_all add: setRadius_def)
  with assms SetRadius show ?thesis by simp
next
  case (ToggleTree x y)
  from toggleTree_ok[OF assms, of x y] obtain b s' where
    "toggleTree s x y = Inr (b, s')" "trees_inv D s'" by blast
  with ToggleTree show ?thesis by simp
next
  case (UpdateVisibility gX gY rad)
  show ?thesis
  proof (cases "elevation_at s (gX, gY)")
    case None
    then have "updateVisibility compute s gX gY rad = Inl (TypeError, s)"
      by (intro updateVisibility_no_entry) (simp add: xy2key_def)
    with assms UpdateVisibility show ?thesis by (simp add: state_after_def)
  next
    case (Some E)
    then obtain eg p where eg: "elevationGrid s = Some eg" and p: "map_of eg (gX, gY) = Some p"
      by (auto elim: elevation_at_SomeD)
    define s1 where "s1 = step compute s call"
    from updateVisibility_state[OF eg p, of compute rad] obtain l a la where
      s1: "s1 = (updateVisibility_begin s eg (pt_z p))\<lparr>lights := l, area := a, lightArea := la\<rparr>"
      unfolding s1_def UpdateVisibility by auto
    have "trees_inv D s1 = trees_inv D s"
      by (rule trees_inv_cong) (simp_all add: s1 updateVisibility_begin_def)
    with assms show ?thesis unfolding s1_def by simp
  qed
qed

lemma run_trees_inv:
  assumes "trees_inv D s"
  shows "trees_inv D (run compute s calls)"
  using assms unfolding run_def
  by (induction calls arbitrary: s) (simp_all add: step_trees_inv)

section \<open>Consistency of the tree-wall cache\<close>

lemma trees_inv_consistent:
  assumes "trees_inv True s"
  shows "treeWalls_consistent s"
proof -
  from assms have wf: "registry_wf True s" and tw: "treeWalls_inv True s"
    by (simp_all add: trees_inv_def)
  have "inj_on tree_wall {t. \<exists>kt. map_of (tree s) kt = Some t}"
  proof (rule inj_onI)
    fix t t' assume "t \<in> {t. \<exists>kt. map_of (tree s) kt = Some t}"
      "t' \<in> {t. \<exists>kt. map_of (tree s) kt = Some t}" "tree_wall t = tree_wall t'"
    then obtain kt kt' where "map_of (tree s) kt = Some t" "map_of (tree s) kt' = Some t'"
      "tree_wall t = tree_wall t'" by blast
    from registry_wf_inj[OF wf this] show "t = t'" by simp
  qed
  moreover have "distinct (walls_at s L k) \<and> set (walls_at s L k) = tree_wall ` qualifying s L k"
    if "L \<in> set (elevationValues s)" for L k
  proof -
    from tw that obtain d where d: "treeWalls s L = Some d" "walls_ok True s L d"
      unfolding treeWalls_inv_def by blast
    have "walls_at s L k = entry d k" by (simp add: walls_at_def entry_def d(1))
    with walls_okD(1,2)[OF d(2), of k] show ?thesis by simp
  qed
  ultimately show ?thesis unfolding treeWalls_consistent_def by blast
qed

lemma step_ready:
  assumes "ready s"
  shows "ready (step compute s call)"
proof (cases call)
  case (SetRadius r)
  with assms show ?thesis by (simp add: setRadius_def)
next
  case (ToggleTree x y)
  from toggleTree_frame[of compute s x y] obtain ts tw where
    "step compute s (ToggleTree x y) = s\<lparr>tree_state := ts, treeWalls := tw\<rparr>" by blast
  with assms ToggleTree show ?thesis by simp
next
  case (UpdateVisibility gX gY rad)
  show ?thesis
  proof (cases "elevation_at s (gX, gY)")
    case None
    then have "updateVisibility compute s gX gY rad = Inl (TypeError, s)"
      by (intro updateVisibility_no_entry) (simp add: xy2key_def)
    with assms UpdateVisibility show ?thesis by (simp add: state_after_def)
  next
    case (Some E)
    then obtain eg p where eg: "elevationGrid s = Some eg" and p: "map_of eg (gX, gY) = Some p"
      by (auto elim: elevation_at_SomeD)
    define s1 where "s1 = step compute s call"
    from updateVisibility_state[OF eg p, of compute rad] obtain l a la where
      s1: "s1 = (updateVisibility_begin s eg (pt_z p))\<lparr>lights := l, area := a, lightArea := la\<rparr>"
      unfolding s1_def UpdateVisibility by auto
    have "ready s1 = ready s" by (simp add: s1 updateVisibility_begin_def)
    with assms show ?thesis unfolding s1_def by simp
  qed
qed

lemma run_ready:
  assumes "ready s"
  shows "ready (run compute s calls)"
  using assms unfolding run_def
  by (induction calls arbitrary: s) (simp_all add: step_ready)

lemma flip_commute: "flip k (flip k' st) = flip k' (flip k st)"
  by (cases "k = k'") (auto simp: flip_def fun_eq_iff)

lemma flip_flip:
  assumes "st k \<noteq> None"
  shows "flip k (flip k st) = st"
  using assms by (auto simp: flip_def fun_eq_iff truthy_def)

lemma flip_defined: "st k \<noteq> None \<Longrightarrow> flip k' st k \<noteq> None"
  by (simp add: flip_def)

lemma fold_flip_commute:
  "fold (\<lambda>p. flip (f p)) l (flip k st) = flip k (fold (\<lambda>p. flip (f p)) l st)"
proof (induction l arbitrary: st)
  case Nil
  show ?case by simp
next
  case (Cons p l)
  have "fold (\<lambda>p. flip (f p)) (p # l) (flip k st) = fold (\<lambda>p. flip (f p)) l (flip k (flip (f p) st))"
    by (simp add: flip_commute[of "f p" k])
  also have "\<dots> = flip k (fold (\<lambda>p. flip (f p)) l (flip (f p) st))" by (rule Cons.IH)
  finally show ?case by simp
qed

lemma fold_flip_twice:
  assumes "\<forall>p \<in> set l. st (f p) \<noteq> None"
  shows "fold (\<lambda>p. flip (f p)) l (fold (\<lambda>p. flip (f p)) l st) = st"
  using assms
proof (induction l arbitrary: st)
  case Nil
  show ?case by simp
next
  case (Cons p l)
  from Cons.prems have d: "st (f p) \<noteq> None" and r: "\<forall>q \<in> set l. st (f q) \<noteq> None" by simp_all
  have "fold (\<lambda>p. flip (f p)) (p # l) (fold (\<lambda>p. flip (f p)) (p # l) st) =
        fold (\<lambda>p. flip (f p)) l (flip (f p) (fold (\<lambda>p. flip (f p)) l (flip (f p) st)))"
    by simp
  also have "\<dots> = fold (\<lambda>p. flip (f p)) l (fold (\<lambda>p. flip (f p)) l (flip (f p) (flip (f p) st)))"
    by (simp only: fold_flip_commute)
  also have "\<dots> = fold (\<lambda>p. flip (f p)) l (fold (\<lambda>p. flip (f p)) l st)"
    by (simp only: flip_flip[where st = st and k = "f p", OF d])
  also have "\<dots> = st" by (rule Cons.IH[OF r])
  finally show ?case .
qed

lemma toggleTree_twice_ok:
  assumes inv: "trees_inv D s"
  shows "\<exists>b s1 s2. toggleTree s x y = Inr (b, s1) \<and> toggleTree s1 x y = Inr (b, s2) \<and>
           trees_inv D s2 \<and> tree_state s2 = tree_state s \<and> tree s2 = tree s \<and>
           tree_elevations s2 = tree_elevations s \<and> tree_blocks s2 = tree_blocks s \<and>
           elevationValues s2 = elevationValues s"
proof -
  define l where "l = (case tree_relations s (x, y) of None \<Rightarrow> [] | Some l \<Rightarrow> l)"
  define F where "F = (\<lambda>p :: pt. flip (pt_key p))"
  from inv have wf: "registry_wf D s" by (simp add: trees_inv_def)
  from toggleTree_ok[OF inv, of x y] obtain tw1 where
    t1: "toggleTree s x y = Inr (tree_relations s (x, y) \<noteq> None,
           s\<lparr>tree_state := fold F l (tree_state s), treeWalls := tw1\<rparr>)"
    and i1: "trees_inv D (s\<lparr>tree_state := fold F l (tree_state s), treeWalls := tw1\<rparr>)"
    unfolding l_def F_def by blast
  define s1 where "s1 = s\<lparr>tree_state := fold F l (tree_state s), treeWalls := tw1\<rparr>"
  have r1: "tree_relations s1 = tree_relations s" by (simp add: s1_def)
  from toggleTree_ok[OF i1[folded s1_def], of x y] obtain tw2 where
    t2: "toggleTree s1 x y = Inr (tree_relations s (x, y) \<noteq> None,
           s1\<lparr>tree_state := fold F l (tree_state s1), treeWalls := tw2\<rparr>)"
    and i2: "trees_inv D (s1\<lparr>tree_state := fold F l (tree_state s1), treeWalls := tw2\<rparr>)"
    unfolding l_def F_def r1 by blast
  define s2 where "s2 = s1\<lparr>tree_state := fold F l (tree_state s1), treeWalls := tw2\<rparr>"
  have "\<forall>p \<in> set l. tree_state s (pt_key p) \<noteq> None"
  proof
    fix p assume p: "p \<in> set l"
    then obtain l' where "tree_relations s (x, y) = Some l'" "p \<in> set l'"
      unfolding l_def by (cases "tree_relations s (x, y)") simp_all
    with wf have "map_of (tree s) (pt_key p) = Some p" unfolding registry_wf_def by blast
    from registry_wf_lookup(4)[OF wf this] show "tree_state s (pt_key p) \<noteq> None" .
  qed
  then have "fold F l (fold F l (tree_state s)) = tree_state s"
    unfolding F_def by (rule fold_flip_twice)
  then have "tree_state s2 = tree_state s" by (simp add: s2_def s1_def)
  moreover have "tree s2 = tree s" "tree_elevations s2 = tree_elevations s"
    "tree_blocks s2 = tree_blocks s" "elevationValues s2 = elevationValues s"
    by (simp_all add: s2_def s1_def)
  ultimately show ?thesis using t1 t2 i2 unfolding s1_def[symmetric] s2_def[symmetric] by blast
qed

lemma trees_inv_walls_set:
  assumes "trees_inv D s" and "L \<in> set (elevationValues s)"
  shows "set (walls_at s L k) = tree_wall ` qualifying s L k"
proof -
  from assms obtain d where d: "treeWalls s L = Some d" "walls_ok D s L d"
    unfolding trees_inv_def treeWalls_inv_def by blast
  have "walls_at s L k = entry d k" by (simp add: walls_at_def entry_def d(1))
  with walls_okD(2)[OF d(2), of k] show ?thesis by simp
qed

text \<open>
  C1, as stated, fails on a grid whose dimensions are not integral. With
  \<open>gridHeight = 7 / 2\<close> the tree of the small map has the origin \<open>(1 / 2, 1)\<close>:
  \<open>Math.floor\<close> and \<open>Math.ceil\<close> agree on 1, the footprint lists each of its two corners
  twice, and right after \<open>initialize\<close> the entry of level 10 at the key \<open>(0, 1)\<close> holds the
  descriptor of the tree twice. With \<open>gridWidth = 7 / 2\<close> the same happens in the other
  coordinate, because the local column \<open>x - offset\<close> of the tree band is then a half-integer.
\<close>

theorem treeWalls_repeated_counterexample:
  "gridHeight half_config = 7 / 2 \<and> ready half_instance \<and>
   10 \<in> set (elevationValues half_instance) \<and>
   walls_at half_instance 10 (0, 1) =
     [Wall ''tree'' (1 / 2) 1 SQRT2, Wall ''tree'' (1 / 2) 1 SQRT2] \<and>
   \<not> treeWalls_consistent half_instance \<and>
   gridWidth wide_config = 7 / 2 \<and> ready wide_instance \<and>
   10 \<in> set (elevationValues wide_instance) \<and>
   walls_at wide_instance 10 (0, 1) =
     [Wall ''tree'' 0 (1 / 2) SQRT2, Wall ''tree'' 0 (1 / 2) SQRT2] \<and>
   \<not> treeWalls_consistent wide_instance"
proof -
  have c: "gridHeight half_config = 7 / 2" "gridWidth wide_config = 7 / 2"
    by (simp_all add: half_config_def wide_config_def VisionSimulation_def)
  have "let s = half_instance in
          ready s \<and> 10 \<in> set (elevationValues s) \<and>
          walls_at s 10 (0, 1) = [Wall ''tree'' (1 / 2) 1 SQRT2, Wall ''tree'' (1 / 2) 1 SQRT2]"
    by code_simp
  then have h: "ready half_instance" "10 \<in> set (elevationValues half_instance)"
    "walls_at half_instance 10 (0, 1) = [Wall ''tree'' (1 / 2) 1 SQRT2, Wall ''tree'' (1 / 2) 1 SQRT2]"
    by (simp_all add: Let_def)
  have "let s = wide_instance in
          ready s \<and> 10 \<in> set (elevationValues s) \<and>
          walls_at s 10 (0, 1) = [Wall ''tree'' 0 (1 / 2) SQRT2, Wall ''tree'' 0 (1 / 2) SQRT2]"
    by code_simp
  then have w: "ready wide_instance" "10 \<in> set (elevationValues wide_instance)"
    "walls_at wide_instance 10 (0, 1) = [Wall ''tree'' 0 (1 / 2) SQRT2, Wall ''tree'' 0 (1 / 2) SQRT2]"
    by (simp_all add: Let_def)
  have "\<not> distinct (walls_at half_instance 10 (0, 1))" by (simp add: h(3))
  with h(2) have nh: "\<not> treeWalls_consistent half_instance"
    unfolding treeWalls_consistent_def by blast
  have "\<not> distinct (walls_at wide_instance 10 (0, 1))" by (simp add: w(3))
  with w(2) have nw: "\<not> treeWalls_consistent wide_instance"
    unfolding treeWalls_consistent_def by blast
  from c h w nh nw show ?thesis by blast
qed

text \<open>
  C1, amended. On a grid of integral width and height, \<open>initialize\<close> returns, and after it
  and any sequence of calls (of \<open>toggleTree\<close>, and of \<open>updateVisibility\<close> and
  \<open>setRadius\<close> as well) the tree-wall cache is consistent: at every known elevation level
  \<open>L\<close> and every key \<open>k\<close> the entry of \<open>treeWalls[L]\<close> at \<open>k\<close> has no repetition and
  holds exactly the descriptors of the registered trees that stand, whose blocking elevation
  exceeds \<open>L\<close> and that have \<open>k\<close> among their footprint corners, different trees having
  different descriptors. A further \<open>toggleTree\<close> then returns.
\<close>

theorem treeWalls_stay_consistent:
  assumes "gridWidth c \<in> \<int>" and "gridHeight c \<in> \<int>"
    and "s = run compute (loaded_instance c img kc) calls"
  shows "(\<exists>kc'. initialize c (Some img) kc = Inr (loaded_instance c img kc, kc')) \<and>
         treeWalls_consistent s \<and> (\<exists>b s'. toggleTree s x y = Inr (b, s'))"
proof -
  from assms(1,2) have i: "True \<longrightarrow> gridWidth c \<in> \<int> \<and> gridHeight c \<in> \<int>" by simp
  have inv: "trees_inv True s"
    unfolding assms(3) by (rule run_trees_inv) (rule initialize_ok(2)[OF i])
  from toggleTree_ok[OF inv, of x y] have "\<exists>b s'. toggleTree s x y = Inr (b, s')" by blast
  with initialize_returns(1)[of c img kc] trees_inv_consistent[OF inv]
  show ?thesis by blast
qed

theorem treeWalls_stay_consistent_witness:
  "gridWidth example_config \<in> \<int> \<and> gridHeight example_config \<in> \<int> \<and>
   treeWalls_consistent example_instance \<and> treeWalls_consistent example_felled \<and>
   10 \<in> set (elevationValues example_felled) \<and>
   walls_at example_instance 10 (0, 0) \<noteq> [] \<and> walls_at example_felled 10 (0, 0) = []"
proof -
  have h: "gridWidth example_config \<in> \<int>" "gridHeight example_config \<in> \<int>"
    by (simp_all add: example_config_def VisionSimulation_def)
  have 0: "example_instance = run PreciseShadowcasting_compute
             (loaded_instance example_config example_image Map.empty) []"
    by (simp add: run_def example_instance_def)
  have 1: "example_felled = run PreciseShadowcasting_compute
             (loaded_instance example_config example_image Map.empty) [ToggleTree 0 0]"
    by (simp add: example_felled_def example_instance_def)
  have "let s = example_instance; f = example_felled in
          10 \<in> set (elevationValues f) \<and> walls_at s 10 (0, 0) \<noteq> [] \<and> walls_at f 10 (0, 0) = []"
    by code_simp
  then have "10 \<in> set (elevationValues example_felled)"
    "walls_at example_instance 10 (0, 0) \<noteq> []" "walls_at example_felled 10 (0, 0) = []"
    by (simp_all add: Let_def)
  with h treeWalls_stay_consistent[OF h 0] treeWalls_stay_consistent[OF h 1]
  show ?thesis by blast
qed

section \<open>Toggling twice\<close>

text \<open>
  C5. In the ready state \<open>s\<close> that a loaded instance is in after any calls, whatever the
  grid dimensions and the image, \<open>toggleTree(x, y)\<close> applied twice returns both times, with
  the same result, and leaves every standing flag as it was in \<open>s\<close> and, at every
  elevation level and every key, a tree-wall entry with the same set of descriptors as in
  \<open>s\<close>.
\<close>

theorem toggleTree_twice_restores:
  assumes "s = run compute (loaded_instance c img kc) calls"
  shows "ready s \<and>
         (\<exists>b s1 s2. toggleTree s x y = Inr (b, s1) \<and> toggleTree s1 x y = Inr (b, s2) \<and>
            tree_state s2 = tree_state s \<and>
            (\<forall>L k. set (walls_at s2 L k) = set (walls_at s L k)))"
proof -
  have inv: "trees_inv False s"
    unfolding assms by (rule run_trees_inv) (rule initialize_returns(2))
  have rd: "ready s"
    unfolding assms by (rule run_ready) (rule initialize_returns(3))
  from toggleTree_twice_ok[OF inv, of x y] obtain b s1 s2 where
    t: "toggleTree s x y = Inr (b, s1)" "toggleTree s1 x y = Inr (b, s2)"
    and inv2: "trees_inv False s2" and st: "tree_state s2 = tree_state s"
    and same: "tree s2 = tree s" "tree_elevations s2 = tree_elevations s"
      "tree_blocks s2 = tree_blocks s"
    and ev: "elevationValues s2 = elevationValues s" by blast
  have q: "qualifying s2 = qualifying s" by (rule qualifying_cong[OF same(1) st same(2,3)])
  have "set (walls_at s2 L k) = set (walls_at s L k)" for L k
  proof (cases "L \<in> set (elevationValues s)")
    case True
    from trees_inv_walls_set[OF inv True]
    have a: "set (walls_at s L k) = tree_wall ` qualifying s L k" .
    from True have "L \<in> set (elevationValues s2)" by (simp add: ev)
    from trees_inv_walls_set[OF inv2 this]
    have "set (walls_at s2 L k) = tree_wall ` qualifying s2 L k" .
    with a q show ?thesis by simp
  next
    case False
    with inv have "treeWalls s L = None" unfolding trees_inv_def treeWalls_inv_def by blast
    moreover from False inv2 have "treeWalls s2 L = None"
      unfolding trees_inv_def treeWalls_inv_def ev by blast
    ultimately show ?thesis by (simp add: walls_at_def)
  qed
  with rd t st show ?thesis by blast
qed

theorem toggleTree_twice_restores_witness:
  "ready example_instance \<and>
   (\<exists>b s2. toggleTree example_instance 0 0 = Inr (b, example_felled) \<and>
      toggleTree example_felled 0 0 = Inr (b, s2) \<and>
      tree_state s2 = tree_state example_instance \<and>
      (\<forall>L k. set (walls_at s2 L k) = set (walls_at example_instance L k))) \<and>
   set (walls_at example_felled 20 (1, 1)) \<noteq> set (walls_at example_instance 20 (1, 1)) \<and>
   ready half_instance \<and>
   (\<exists>b s1 s2. toggleTree half_instance 0 1 = Inr (b, s1) \<and> toggleTree s1 0 1 = Inr (b, s2) \<and>
      tree_state s2 = tree_state half_instance \<and>
      (\<forall>L k. set (walls_at s2 L k) = set (walls_at half_instance L k)))"
proof -
  have 0: "example_instance = run PreciseShadowcasting_compute
             (loaded_instance example_config example_image Map.empty) []"
    by (simp add: run_def example_instance_def)
  from toggleTree_twice_restores[OF 0, of 0 0] obtain b s1 s2 where
    rd: "ready example_instance"
    and t: "toggleTree example_instance 0 0 = Inr (b, s1)" "toggleTree s1 0 0 = Inr (b, s2)"
      "tree_state s2 = tree_state example_instance"
      "\<forall>L k. set (walls_at s2 L k) = set (walls_at example_instance L k)"
    by blast
  from t(1) have "example_felled = s1" by (simp add: example_felled_def run_def)
  with t have e: "\<exists>b s2. toggleTree example_instance 0 0 = Inr (b, example_felled) \<and>
      toggleTree example_felled 0 0 = Inr (b, s2) \<and>
      tree_state s2 = tree_state example_instance \<and>
      (\<forall>L k. set (walls_at s2 L k) = set (walls_at example_instance L k))" by blast
  have "let s = example_instance; f = example_felled in
          walls_at f 20 (1, 1) = [] \<and> walls_at s 20 (1, 1) \<noteq> []"
    by code_simp
  then have d: "set (walls_at example_felled 20 (1, 1)) \<noteq> set (walls_at example_instance 20 (1, 1))"
    by (simp add: Let_def)
  have 1: "half_instance = run PreciseShadowcasting_compute
             (loaded_instance half_config example_image Map.empty) []"
    by (simp add: run_def half_instance_def)
  from rd e d toggleTree_twice_restores[OF 1, of 0 1] show ?thesis by blast
qed

section \<open>The sweep over an open field\<close>

lemma ring_offsets_set:
  assumes "1 \<le> r"
  shows "set (ring_offsets r) = {d. max \<bar>fst d\<bar> \<bar>snd d\<bar> = r}"
proof (rule set_eqI)
  fix d :: "int \<times> int"
  obtain a b where d: "d = (a, b)" by (cases d)
  have "d \<in> set (ring_offsets r) \<longleftrightarrow>
          (b = - r \<and> - r \<le> a \<and> a \<le> r - 1) \<or> (a = r \<and> - r \<le> b \<and> b \<le> r - 1) \<or>
          (b = r \<and> - r \<le> - a \<and> - a \<le> r - 1) \<or> (a = - r \<and> - r \<le> - b \<and> - b \<le> r - 1)"
  proof -
    have "(\<exists>i \<in> {- r..r - 1}. a = - i \<and> b = r) \<longleftrightarrow> b = r \<and> - r \<le> - a \<and> - a \<le> r - 1"
      by (auto intro: bexI[where x = "- a"])
    moreover have "(\<exists>j \<in> {- r..r - 1}. a = - r \<and> b = - j) \<longleftrightarrow>
                     a = - r \<and> - r \<le> - b \<and> - b \<le> r - 1"
      by (auto intro: bexI[where x = "- b"])
    ultimately show ?thesis
      unfolding d ring_offsets_def by (auto simp: image_iff)
  qed
  also have "\<dots> \<longleftrightarrow> max \<bar>a\<bar> \<bar>b\<bar> = r" using assms by (simp add: max_def abs_if) arith
  finally show "d \<in> set (ring_offsets r) \<longleftrightarrow> d \<in> {d. max \<bar>fst d\<bar> \<bar>snd d\<bar> = r}"
    by (simp add: d)
qed

lemma open_arc_visible:
  assumes "0 < n"
  shows "\<not> list_all (covered []) (arc_pieces i n)"
proof -
  have "(0 :: rat) < 1 / of_nat (2 * n)" using assms by simp
  moreover have "(2 * of_nat i - 1) / of_nat (2 * n) < ((2 * of_nat i + 1) / of_nat (2 * n) :: rat)"
    using assms by (simp add: divide_strict_right_mono)
  ultimately show ?thesis
    by (simp add: arc_pieces_def covered_def not_le)
qed

text \<open>Where every cell lets light pass, a ring is visited whole and nothing is shadowed.\<close>

lemma sweep_ring_open:
  assumes lp: "\<And>a b. lightPasses a b = Inr True" and r: "1 \<le> r" and sh: "sw_shadows sw = []"
  shows "\<exists>sw'. sweep_ring lightPasses x y r sw = Inr sw' \<and> sw_shadows sw' = [] \<and>
           sw_visits sw' = sw_visits sw @
             map (\<lambda>d. (x + of_int (fst d), y + of_int (snd d), of_int r, 1)) (ring_offsets r)"
proof -
  define g :: "nat \<times> int \<times> int \<Rightarrow> rat \<times> rat \<times> rat \<times> rat"
    where "g = (\<lambda>c. (x + of_int (fst (snd c)), y + of_int (snd (snd c)), of_int r, 1))"
  define P where "P pre sw' \<longleftrightarrow> sw_shadows sw' = [] \<and> sw_visits sw' = sw_visits sw @ map g pre"
    for pre and sw' :: sweep
  from r have n: "0 < nat (8 * r)" by simp
  have "\<exists>sw'. forEach (sweep_cell lightPasses x y r) (enumerate 0 (ring_offsets r)) sw = Inr sw' \<and>
              P (enumerate 0 (ring_offsets r)) sw'"
  proof (rule forEach_rule)
    show "P [] sw" by (simp add: P_def sh)
  next
    fix pre c post sw1
    assume "P pre sw1"
    then have 1: "sw_shadows sw1 = []" and 2: "sw_visits sw1 = sw_visits sw @ map g pre"
      by (simp_all add: P_def)
    have "sweep_cell lightPasses x y r c sw1 =
            Inr \<lparr>sw_shadows = [], sw_visits = sw_visits sw1 @ [g c]\<rparr>"
      by (simp add: sweep_cell_def lp 1 open_arc_visible[OF n] g_def)
    moreover have "P (pre @ [c]) \<lparr>sw_shadows = [], sw_visits = sw_visits sw1 @ [g c]\<rparr>"
      by (simp add: P_def 2)
    ultimately show "\<exists>sw'. sweep_cell lightPasses x y r c sw1 = Inr sw' \<and> P (pre @ [c]) sw'"
      by blast
  qed
  then obtain sw' where run: "sweep_ring lightPasses x y r sw = Inr sw'"
    and 1: "sw_shadows sw' = []"
    and 2: "sw_visits sw' = sw_visits sw @ map g (enumerate 0 (ring_offsets r))"
    unfolding sweep_ring_def P_def by blast
  have "map g (enumerate 0 (ring_offsets r)) =
          map ((\<lambda>d. (x + of_int (fst d), y + of_int (snd d), of_int r, 1)) \<circ> snd)
              (enumerate 0 (ring_offsets r))"
    by (simp add: g_def comp_def)
  then have "map g (enumerate 0 (ring_offsets r)) =
          map (\<lambda>d. (x + of_int (fst d), y + of_int (snd d), of_int r, 1))
              (map snd (enumerate 0 (ring_offsets r)))"
    by (simp only: map_map)
  then have "map g (enumerate 0 (ring_offsets r)) =
          map (\<lambda>d. (x + of_int (fst d), y + of_int (snd d), of_int r, 1)) (ring_offsets r)"
    by (simp only: map_snd_enumerate)
  with run 1 2 show ?thesis by simp
qed

text \<open>The whole sweep: every cell within the radius is visited, each with visibility 1.\<close>

lemma sweep_open:
  assumes lp: "\<And>a b. lightPasses a b = Inr True" and R: "0 \<le> R"
  shows "\<exists>vs. PreciseShadowcasting_compute fw lightPasses x y (of_int R) =
               \<lparr>fov_visits = vs, fov_return = Inr (int (length vs))\<rparr> \<and>
             (\<forall>v \<in> set vs. snd (snd (snd v)) = 1) \<and>
             (\<lambda>v. (fst v, fst (snd v))) ` set vs =
               {(x + of_int dx, y + of_int dy) | dx dy. \<bar>dx\<bar> \<le> R \<and> \<bar>dy\<bar> \<le> R}"
proof -
  define K :: "rat \<times> rat \<times> rat \<times> rat \<Rightarrow> rat \<times> rat" where "K = (\<lambda>v. (fst v, fst (snd v)))"
  define P where "P pre sw \<longleftrightarrow> sw_shadows sw = [] \<and> (\<forall>v \<in> set (sw_visits sw). snd (snd (snd v)) = 1) \<and>
      K ` set (sw_visits sw) =
        {(x + of_int dx, y + of_int dy) | dx dy. max \<bar>dx\<bar> \<bar>dy\<bar> \<in> insert 0 (set pre)}"
    for pre :: "int list" and sw :: sweep
  define sw0 where "sw0 = \<lparr>sw_shadows = [], sw_visits = [(x, y, 0, 1)]\<rparr>"
  have "\<exists>sw. forEach (sweep_ring lightPasses x y) [1..R] sw0 = Inr sw \<and> P [1..R] sw"
  proof (rule forEach_rule)
    have m: "max \<bar>dx\<bar> \<bar>dy\<bar> = 0 \<longleftrightarrow> dx = 0 \<and> dy = 0" for dx dy :: int
      by (simp add: max_def) arith
    have "{(x + of_int dx, y + of_int dy) | dx dy. max \<bar>dx\<bar> \<bar>dy\<bar> \<in> insert 0 (set [])} = {(x, y)}"
      by (simp add: m)
    then show "P [] sw0" by (simp add: P_def sw0_def K_def)
  next
    fix pre r post sw
    assume xs: "[1..R] = pre @ r # post" and Pp: "P pre sw"
    have "r \<in> set [1..R]" unfolding xs by simp
    then have r: "1 \<le> r" by simp
    from Pp have sh: "sw_shadows sw = []" and v1: "\<forall>v \<in> set (sw_visits sw). snd (snd (snd v)) = 1"
      and ks: "K ` set (sw_visits sw) =
        {(x + of_int dx, y + of_int dy) | dx dy. max \<bar>dx\<bar> \<bar>dy\<bar> \<in> insert 0 (set pre)}"
      by (simp_all add: P_def)
    from sweep_ring_open[of lightPasses r sw x y, OF lp r sh] obtain sw' where
      run: "sweep_ring lightPasses x y r sw = Inr sw'" and sh': "sw_shadows sw' = []"
      and vs': "sw_visits sw' = sw_visits sw @
             map (\<lambda>d. (x + of_int (fst d), y + of_int (snd d), of_int r, 1)) (ring_offsets r)"
      by blast
    have "\<forall>v \<in> set (sw_visits sw'). snd (snd (snd v)) = 1" using v1 by (auto simp: vs')
    moreover have "K ` set (sw_visits sw') =
        {(x + of_int dx, y + of_int dy) | dx dy. max \<bar>dx\<bar> \<bar>dy\<bar> \<in> insert 0 (set (pre @ [r]))}"
    proof -
      have "K ` set (sw_visits sw') = K ` set (sw_visits sw) \<union>
              (\<lambda>d. (x + of_int (fst d), y + of_int (snd d))) ` set (ring_offsets r)"
        by (simp add: vs' image_Un image_image K_def)
      also have "\<dots> = {(x + of_int dx, y + of_int dy) | dx dy. max \<bar>dx\<bar> \<bar>dy\<bar> \<in> insert 0 (set pre)} \<union>
              {(x + of_int dx, y + of_int dy) | dx dy. max \<bar>dx\<bar> \<bar>dy\<bar> = r}"
      proof -
        have "(\<lambda>d. (x + of_int (fst d), y + of_int (snd d))) ` {d. max \<bar>fst d\<bar> \<bar>snd d\<bar> = r} =
                {(x + of_int dx, y + of_int dy) | dx dy. max \<bar>dx\<bar> \<bar>dy\<bar> = r}"
          by (auto simp: image_iff split_paired_Ex)
        then show ?thesis unfolding ks ring_offsets_set[OF r] by simp
      qed
      also have "\<dots> = {(x + of_int dx, y + of_int dy) | dx dy.
                         max \<bar>dx\<bar> \<bar>dy\<bar> \<in> insert 0 (set (pre @ [r]))}"
        by auto
      finally show ?thesis .
    qed
    ultimately have "P (pre @ [r]) sw'" using sh' by (simp add: P_def)
    with run show "\<exists>sw'. sweep_ring lightPasses x y r sw = Inr sw' \<and> P (pre @ [r]) sw'" by blast
  qed
  then obtain sw where run: "forEach (sweep_ring lightPasses x y) [1..R] sw0 = Inr sw"
    and v1: "\<forall>v \<in> set (sw_visits sw). snd (snd (snd v)) = 1"
    and ks: "K ` set (sw_visits sw) =
        {(x + of_int dx, y + of_int dy) | dx dy. max \<bar>dx\<bar> \<bar>dy\<bar> \<in> insert 0 (set [1..R])}"
    unfolding P_def by blast
  have "max \<bar>dx\<bar> \<bar>dy\<bar> \<in> insert 0 (set [1..R]) \<longleftrightarrow> \<bar>dx\<bar> \<le> R \<and> \<bar>dy\<bar> \<le> R" for dx dy :: int
    using R by (simp add: max_def) arith
  with ks have "K ` set (sw_visits sw) =
        {(x + of_int dx, y + of_int dy) | dx dy. \<bar>dx\<bar> \<le> R \<and> \<bar>dy\<bar> \<le> R}" by simp
  moreover have "PreciseShadowcasting_compute fw lightPasses x y (of_int R) =
               \<lparr>fov_visits = sw_visits sw, fov_return = Inr (int (length (sw_visits sw)))\<rparr>"
    using run by (simp add: PreciseShadowcasting_compute_def sw0_def)
  ultimately show ?thesis using v1 unfolding K_def by blast
qed

section \<open>A query over an open field\<close>

lemma forEach_callback_total:
  assumes "elevationGrid s \<noteq> None" and "ent_fow_blocker_node s \<noteq> None"
  shows "\<exists>s'. forEach visibility_callback vs s = Inr s'"
  using assms
proof (induction vs arbitrary: s)
  case Nil
  show ?case by simp
next
  case (Cons v vs)
  from Cons.prems have "\<exists>s1. visibility_callback v s = Inr s1"
    by (auto simp: visibility_callback_def)
  then obtain s1 where s1: "visibility_callback v s = Inr s1" by blast
  define l where "l = lights s1"
  have e: "s1 = s\<lparr>lights := l\<rparr>" unfolding l_def by (rule visibility_callback_Inr(1)[OF s1])
  have "elevationGrid s1 = elevationGrid s" "ent_fow_blocker_node s1 = ent_fow_blocker_node s"
    by (simp_all add: e)
  with Cons.prems have "elevationGrid s1 \<noteq> None" "ent_fow_blocker_node s1 \<noteq> None" by simp_all
  from Cons.IH[OF this] s1 show ?case by simp
qed

lemma open_field_lightPasses:
  assumes ti: "terrain_inv s" and tr: "trees_inv D s" and op: "open_field s E"
    and eg: "elevationGrid s = Some eg" and o: "elevation_at s k0 = Some E"
  shows "lightPassesCallback (updateVisibility_begin s eg E) a b = Inr True"
proof -
  define s3 where "s3 = updateVisibility_begin s eg E"
  from ti eg have wf: "grid_wf eg"
    and c: "\<forall>E w. elevationWalls s E = Some w \<longrightarrow> w = generateElevationWalls eg E"
    and fb: "ent_fow_blocker_node s \<noteq> None"
    and ev: "\<forall>k z. elevation_at s k = Some z \<longrightarrow> z \<in> set (elevationValues s)"
    by (simp_all add: terrain_inv_def walls_cached_def)
  from op have flat: "\<forall>k z. elevation_at s k = Some z \<longrightarrow> z = E" and nt: "tree s = []"
    and nb: "\<forall>k. \<not> isFowBlocker s k" by (simp_all add: open_field_def)
  have "ElevationWallSet (elevation_at s) E = {}"
    unfolding ElevationWallSet_def using flat by fastforce
  then have "dom (generateElevationWalls eg E) = {}"
    by (simp add: generateElevationWalls_dom[OF wf] elevation_at_conv[OF eg])
  then have g: "generateElevationWalls eg E = Map.empty" by simp
  have ew: "elevationWalls s3 E = Some Map.empty"
  proof (cases "elevationWalls s E")
    case None
    then show ?thesis by (simp add: s3_def updateVisibility_begin_def g)
  next
    case (Some w)
    with c g have "w = Map.empty" by simp
    with Some show ?thesis by (simp add: s3_def updateVisibility_begin_def)
  qed
  from fb obtain f where f: "ent_fow_blocker_node s = Some f" by blast
  with nb have f0: "f (a, b) = None" by (simp add: isFowBlocker_def)
  from o ev have "E \<in> set (elevationValues s)" by blast
  with tr obtain tw where tw: "treeWalls s E = Some tw" and ok: "walls_ok D s E tw"
    unfolding trees_inv_def treeWalls_inv_def by blast
  have "qualifying s E (a, b) = {}" by (simp add: qualifying_def nt)
  with walls_okD(2)[OF ok, of "(a, b)"] have "entry tw (a, b) = []" by simp
  then have t0: "\<not> (case tw (a, b) of None \<Rightarrow> False | Some ws \<Rightarrow> length ws > 0)"
    by (simp add: entry_def split: option.splits)
  have "elevation s3 = Some E" "ent_fow_blocker_node s3 = Some f" "treeWalls s3 E = Some tw"
    by (simp_all add: s3_def updateVisibility_begin_def f tw)
  with ew f0 t0 show ?thesis
    unfolding s3_def[symmetric] by (simp add: lightPassesCallback_def)
qed

lemma open_field_passes_filter:
  assumes tr: "trees_inv D s" and op: "open_field s E"
  shows "passes_filter (updateVisibility_begin s eg E) k \<longleftrightarrow> elevation_at s k \<noteq> None"
proof -
  define s3 where "s3 = updateVisibility_begin s eg E"
  from tr have wf: "registry_wf D s" by (simp add: trees_inv_def)
  from op have nt: "tree s = []" and nb: "\<not> isFowBlocker s k" by (simp_all add: open_field_def)
  have "\<not> tree_covers s3 k"
  proof
    assume "tree_covers s3 k"
    then obtain t where t: "t \<in> set (case tree_relations s k of None \<Rightarrow> [] | Some l \<Rightarrow> l)"
      by (auto simp: tree_covers_def s3_def updateVisibility_begin_def)
    then obtain l where "tree_relations s k = Some l" "t \<in> set l"
      by (cases "tree_relations s k") simp_all
    with wf have "map_of (tree s) (pt_key t) = Some t" unfolding registry_wf_def by blast
    with nt show False by simp
  qed
  moreover have "isFowBlocker s3 k = isFowBlocker s k" "elevation_at s3 k = elevation_at s k"
    by (simp_all add: s3_def updateVisibility_begin_def isFowBlocker_def elevation_at_def)
  ultimately show ?thesis unfolding s3_def[symmetric] using nb by (simp add: passes_filter_def)
qed

text \<open>
  Over an open field the query returns, and it lights exactly the cells of the grid within
  the radius.
\<close>

lemma updateVisibility_open:
  assumes ti: "terrain_inv s" and tr: "trees_inv D s" and op: "open_field s E"
    and o: "elevation_at s (x, y) \<noteq> None" and R: "1 \<le> R"
  defines "lit \<equiv> {k. (\<exists>dx dy. k = (x + of_int dx, y + of_int dy) \<and> \<bar>dx\<bar> \<le> R \<and> \<bar>dy\<bar> \<le> R) \<and>
                     elevation_at s k \<noteq> None}"
  shows "\<exists>s'. updateVisibility PreciseShadowcasting_compute s x y (Some (of_int R)) = Inr s' \<and>
              (\<forall>k. map_of (lights s') k = (if k \<in> lit then Some 255 else None)) \<and>
              lightArea s' = Some (card lit)"
proof -
  from op o have oE: "elevation_at s (x, y) = Some E" by (auto simp: open_field_def)
  then obtain eg p where eg: "elevationGrid s = Some eg" and p: "map_of eg (x, y) = Some p"
    and z: "pt_z p = E" by (auto elim: elevation_at_SomeD)
  define s3 where "s3 = updateVisibility_begin s eg E"
  have lp: "lightPassesCallback s3 a b = Inr True" for a b
    unfolding s3_def by (rule open_field_lightPasses[OF ti tr op eg oE])
  have rad: "js_or (Some (of_int R)) (radius s) = of_int R" using R by (simp add: js_or_def)
  from R have R0: "0 \<le> R" by simp
  from sweep_open[of "lightPassesCallback s3" R "treeWalls s E" x y, OF lp R0] obtain vs where
    c: "PreciseShadowcasting_compute (treeWalls s E) (lightPassesCallback s3) x y (of_int R) =
          \<lparr>fov_visits = vs, fov_return = Inr (int (length vs))\<rparr>"
    and v1: "\<forall>v \<in> set vs. snd (snd (snd v)) = 1"
    and ks: "(\<lambda>v. (fst v, fst (snd v))) ` set vs =
               {(x + of_int dx, y + of_int dy) | dx dy. \<bar>dx\<bar> \<le> R \<and> \<bar>dy\<bar> \<le> R}"
    by blast
  from ti have fb: "ent_fow_blocker_node s \<noteq> None" by (simp add: terrain_inv_def)
  have "elevationGrid s3 \<noteq> None" "ent_fow_blocker_node s3 \<noteq> None"
    using eg fb by (simp_all add: s3_def updateVisibility_begin_def)
  from forEach_callback_total[OF this, of vs] obtain s4 where
    fe: "forEach visibility_callback vs s3 = Inr s4" by blast
  define s' where "s' = s4\<lparr>area := int (length vs), lightArea := Some (length (lights s4))\<rparr>"
  have run: "updateVisibility PreciseShadowcasting_compute s x y (Some (of_int R)) = Inr s'"
    unfolding updateVisibility_def
    by (simp add: eg xy2key_def p z rad s3_def[symmetric] c fe s'_def)
  note fr = forEach_callback_Inr[OF fe]
  have l3: "lights s3 = []" by (simp add: s3_def updateVisibility_begin_def)
  have l4: "lights s4 = fold (\<lambda>v l. if snd (snd (snd v)) = 1 \<and> passes_filter s3 (fst v, fst (snd v))
                      then AList.update (fst v, fst (snd v)) 255 l else l) vs []"
    using fr l3 by simp
  have pf: "passes_filter s3 k \<longleftrightarrow> elevation_at s k \<noteq> None" for k
    unfolding s3_def by (rule open_field_passes_filter[OF tr op])
  have m: "map_of (lights s4) k = (if k \<in> lit then Some 255 else None)" for k
  proof -
    have "map_of (lights s4) k =
        (if \<exists>v \<in> set vs. (snd (snd (snd v)) = 1 \<and> passes_filter s3 (fst v, fst (snd v))) \<and>
               (fst v, fst (snd v)) = k then Some 255 else map_of [] k)"
      by (simp only: l4 fold_update_map_of)
    moreover have "(\<exists>v \<in> set vs. (snd (snd (snd v)) = 1 \<and> passes_filter s3 (fst v, fst (snd v))) \<and>
               (fst v, fst (snd v)) = k) \<longleftrightarrow> k \<in> lit"
    proof -
      have "(\<exists>v \<in> set vs. (snd (snd (snd v)) = 1 \<and> passes_filter s3 (fst v, fst (snd v))) \<and>
               (fst v, fst (snd v)) = k) \<longleftrightarrow>
            k \<in> (\<lambda>v. (fst v, fst (snd v))) ` set vs \<and> elevation_at s k \<noteq> None"
        using v1 by (auto simp: pf)
      also have "\<dots> \<longleftrightarrow> k \<in> lit" unfolding ks lit_def by blast
      finally show ?thesis .
    qed
    ultimately show ?thesis by simp
  qed
  have dl: "distinct (map fst (lights s4))"
    by (simp only: l4) (rule fold_update_distinct, simp)
  have "dom (map_of (lights s4)) = lit"
    by (auto simp: m dom_def split: if_splits)
  then have "lit = set (map fst (lights s4))" by (simp add: dom_map_of_conv_image_fst)
  then have "card lit = length (lights s4)" using distinct_card[OF dl] by simp
  then have "lightArea s' = Some (card lit)" by (simp add: s'_def)
  moreover have "\<forall>k. map_of (lights s') k = (if k \<in> lit then Some 255 else None)"
    using m by (simp add: s'_def)
  ultimately show ?thesis using run by blast
qed

section \<open>The cells of the grid\<close>

text \<open>The keys of the elevation grid are the cells the scan went through, rows flipped.\<close>

lemma elevation_scan_keys:
  fixes s :: simulation and img :: image and offset width height :: rat
  defines "r \<equiv> scan img offset width height elevationPixelHandler (s, [])"
  shows "fst ` set (snd r) =
           (\<lambda>c. (of_int (\<lfloor>offset\<rfloor> + fst c) - offset, gridHeight s - of_int (snd c) - 1)) `
             set (scan_cells \<lfloor>width\<rfloor> \<lfloor>height\<rfloor>)"
proof -
  define kf :: "int \<times> int \<Rightarrow> key" where
    "kf = (\<lambda>c. (of_int (\<lfloor>offset\<rfloor> + fst c) - offset, gridHeight s - of_int (snd c) - 1))"
  define P where "P pre st \<longleftrightarrow> gridHeight (fst st) = gridHeight s \<and>
                                 fst ` set (snd st) = kf ` set pre"
    for pre and st :: "simulation \<times> (key \<times> zpt) list"
  have "P (scan_cells \<lfloor>width\<rfloor> \<lfloor>height\<rfloor>)
          (fold (\<lambda>(x, y). elevationPixelHandler (of_int (\<lfloor>offset\<rfloor> + x) - offset) (of_int y)
                             (img (\<lfloor>offset\<rfloor> + x) y))
             (scan_cells \<lfloor>width\<rfloor> \<lfloor>height\<rfloor>) (s, []))"
  proof (rule fold_prefix_rule)
    show "P [] (s, [])" by (simp add: P_def)
  next
    fix pre and c :: "int \<times> int" and st :: "simulation \<times> (key \<times> zpt) list"
    assume Pp: "P pre st"
    obtain s1 g1 where st: "st = (s1, g1)" by (cases st)
    obtain x y where c: "c = (x, y)" by (cases c)
    from Pp have 1: "gridHeight s1 = gridHeight s" and 2: "fst ` set g1 = kf ` set pre"
      by (simp_all add: P_def st)
    show "P (pre @ [c]) ((\<lambda>(x, y). elevationPixelHandler (of_int (\<lfloor>offset\<rfloor> + x) - offset) (of_int y)
                                       (img (\<lfloor>offset\<rfloor> + x) y)) c st)"
      by (simp add: P_def st c elevationPixelHandler_eq 1 2 dom_update kf_def)
  qed
  then show ?thesis by (simp add: P_def r_def scan_def kf_def)
qed

lemma step_elevationGrid: "elevationGrid (step compute s call) = elevationGrid s"
proof (cases call)
  case (SetRadius r)
  then show ?thesis by (simp add: setRadius_def)
next
  case (ToggleTree x y)
  from toggleTree_frame[of compute s x y] obtain ts tw where
    "step compute s (ToggleTree x y) = s\<lparr>tree_state := ts, treeWalls := tw\<rparr>" by blast
  with ToggleTree show ?thesis by simp
next
  case (UpdateVisibility gX gY rad)
  show ?thesis
  proof (cases "elevation_at s (gX, gY)")
    case None
    then have "updateVisibility compute s gX gY rad = Inl (TypeError, s)"
      by (intro updateVisibility_no_entry) (simp add: xy2key_def)
    with UpdateVisibility show ?thesis by (simp add: state_after_def)
  next
    case (Some E)
    then obtain eg p where eg: "elevationGrid s = Some eg" and p: "map_of eg (gX, gY) = Some p"
      by (auto elim: elevation_at_SomeD)
    define s1 where "s1 = step compute s call"
    from updateVisibility_state[OF eg p, of compute rad] obtain l a la where
      s1: "s1 = (updateVisibility_begin s eg (pt_z p))\<lparr>lights := l, area := a, lightArea := la\<rparr>"
      unfolding s1_def UpdateVisibility by auto
    have "elevationGrid s1 = elevationGrid s" by (simp add: s1 updateVisibility_begin_def)
    then show ?thesis unfolding s1_def .
  qed
qed

lemma run_elevationGrid: "elevationGrid (run compute s calls) = elevationGrid s"
  unfolding run_def by (induction calls arbitrary: s) (simp_all add: step_elevationGrid)

text \<open>
  On a grid of integral width and height the cells with an elevation entry are the cells
  \<open>(i, j)\<close> with \<open>0 \<le> i < gridWidth\<close> and \<open>0 \<le> j < gridHeight\<close>, whatever calls were made.
\<close>

lemma grid_cells:
  assumes W: "gridWidth c = of_int W" and H: "gridHeight c = of_int H"
    and s: "s = run compute (loaded_instance c img kc) calls"
  shows "elevation_at s k \<noteq> None \<longleftrightarrow>
           (\<exists>i j. k = (of_int i, of_int j) \<and> 0 \<le> i \<and> i < W \<and> 0 \<le> j \<and> j < H)"
proof -
  obtain G1 G2 G3 s4 r5 where
    s4: "s4 = tree_fields_of s4
            ((initialize_begin c)\<lparr>gridnav := Some G1, ent_fow_blocker_node := Some G2,
                                   tools_no_wards := Some G3\<rparr>)"
    and r5: "r5 = scan img 0 (gridWidth c) (gridHeight c) elevationPixelHandler (s4, [])"
    and sp: "initialize_parse img (initialize_begin c) = (fst r5)\<lparr>elevationGrid := Some (snd r5)\<rparr>"
    by (rule initialize_parse_shape[of c img]) blast
  from loaded_instance_shape[of c img kc] obtain tw g b where
    li: "loaded_instance c img kc =
           (initialize_parse img (initialize_begin c))\<lparr>treeWalls := tw, grid := g, ready := b\<rparr>"
    by blast
  have eg: "elevationGrid s = Some (snd r5)"
    unfolding s run_elevationGrid by (simp add: li sp)
  have "gridHeight s4 = gridHeight c"
    by (subst s4) (simp add: tree_fields_of_def initialize_begin_def)
  then have keys: "fst ` set (snd r5) =
      (\<lambda>c. (of_int (fst c), of_int H - of_int (snd c) - 1)) ` set (scan_cells W H)"
    unfolding r5 elevation_scan_keys by (simp add: W H)
  have "elevation_at s k \<noteq> None \<longleftrightarrow> k \<in> fst ` set (snd r5)"
    by (simp add: elevation_at_def eg map_of_eq_None_iff)
  also have "\<dots> \<longleftrightarrow> (\<exists>x y. 0 \<le> x \<and> x < W \<and> 0 \<le> y \<and> y < H \<and>
                           k = (of_int x, of_int (H - y - 1)))"
  proof -
    have "k \<in> (\<lambda>c. (of_int (fst c), of_int H - of_int (snd c) - 1)) ` set (scan_cells W H) \<longleftrightarrow>
            (\<exists>c \<in> set (scan_cells W H). k = (of_int (fst c), of_int (H - snd c - 1)))"
      by (simp add: image_iff)
    also have "\<dots> \<longleftrightarrow> (\<exists>x y. (x, y) \<in> set (scan_cells W H) \<and> k = (of_int x, of_int (H - y - 1)))"
      by (simp add: Bex_def split_paired_Ex)
    finally show ?thesis unfolding keys by (simp add: scan_cells_mem conj_ac)
  qed
  also have "\<dots> \<longleftrightarrow> (\<exists>i j. k = (of_int i, of_int j) \<and> 0 \<le> i \<and> i < W \<and> 0 \<le> j \<and> j < H)"
  proof
    assume "\<exists>x y. 0 \<le> x \<and> x < W \<and> 0 \<le> y \<and> y < H \<and> k = (of_int x, of_int (H - y - 1))"
    then obtain x y where "0 \<le> x" "x < W" "0 \<le> y" "y < H" "k = (of_int x, of_int (H - y - 1))"
      by blast
    then have "k = (of_int x, of_int (H - y - 1)) \<and> 0 \<le> x \<and> x < W \<and> 0 \<le> H - y - 1 \<and> H - y - 1 < H"
      by simp
    then show "\<exists>i j. k = (of_int i, of_int j) \<and> 0 \<le> i \<and> i < W \<and> 0 \<le> j \<and> j < H" by blast
  next
    assume "\<exists>i j. k = (of_int i, of_int j) \<and> 0 \<le> i \<and> i < W \<and> 0 \<le> j \<and> j < H"
    then obtain i j where "k = (of_int i, of_int j)" "0 \<le> i" "i < W" "0 \<le> j" "j < H" by blast
    then have "0 \<le> i \<and> i < W \<and> 0 \<le> H - j - 1 \<and> H - j - 1 < H \<and>
                 k = (of_int i, of_int (H - (H - j - 1) - 1))"
      by simp
    then show "\<exists>x y. 0 \<le> x \<and> x < W \<and> 0 \<le> y \<and> y < H \<and> k = (of_int x, of_int (H - y - 1))"
      by blast
  qed
  finally show ?thesis .
qed

section \<open>Flat maps\<close>

lemma blackPixelHandler_white: "fst p \<noteq> 0 \<Longrightarrow> blackPixelHandler x y p st = st"
  by (cases st) (simp add: blackPixelHandler_def Let_def)

lemma treeElevationPixelHandler_white:
  "fst (snd p) \<noteq> 0 \<Longrightarrow> treeElevationPixelHandler x y p st = st"
  by (cases st) (simp add: treeElevationPixelHandler_def Let_def)

text \<open>The instance loaded from a flat image is an open field.\<close>

lemma flat_image_open_field:
  assumes W: "gridWidth c = of_int W"
  shows "open_field (loaded_instance c (flat_image W E) kc) E"
proof -
  define img where "img = flat_image W E"
  define s0 where "s0 = initialize_begin c"
  define w where "w = gridWidth c"
  define h where "h = gridHeight c"
  have wh: "gridWidth s0 = w" "gridHeight s0 = h"
    by (simp_all add: s0_def w_def h_def initialize_begin_def)
  have "w * 2 = of_int (W * 2)" "w * 3 = of_int (W * 3)" "w * 4 = of_int (W * 4)" "w = of_int W"
    by (simp_all add: w_def W)
  then have fl: "\<lfloor>w * 2\<rfloor> = W * 2" "\<lfloor>w * 3\<rfloor> = W * 3" "\<lfloor>w * 4\<rfloor> = W * 4" "\<lfloor>w\<rfloor> = W"
    by (simp_all only: floor_of_int)
  have cell: "0 \<le> x \<and> x < W" if "(x, y) \<in> set (scan_cells \<lfloor>w\<rfloor> \<lfloor>h\<rfloor>)" for x y
    using that by (simp add: scan_cells_mem fl)
  have white: "img (W * 2 + x) y = (255, 255, 255)" "img (W * 3 + x) y = (255, 255, 255)"
    "img (W * 4 + x) y = (255, 255, 255)" "img (W + x) y = (255, 255, 255)"
    if "0 \<le> x" "x < W" for x y
    using that by (simp_all add: img_def flat_image_def)
  have b2: "scan img (w * 2) w h blackPixelHandler st = st" for st :: "simulation \<times> (key \<rightharpoonup> pt)"
    by (rule scan_noop) (use cell in \<open>simp add: fl white blackPixelHandler_white\<close>)
  have b3: "scan img (w * 3) w h blackPixelHandler st = st" for st :: "simulation \<times> (key \<rightharpoonup> pt)"
    by (rule scan_noop) (use cell in \<open>simp add: fl white blackPixelHandler_white\<close>)
  have b4: "scan img (w * 4) w h blackPixelHandler st = st" for st :: "simulation \<times> (key \<rightharpoonup> pt)"
    by (rule scan_noop) (use cell in \<open>simp add: fl white blackPixelHandler_white\<close>)
  have tn: "scan img w w h treeElevationPixelHandler st = st" for st :: "simulation \<times> (key \<rightharpoonup> pt)"
    by (rule scan_noop) (use cell in \<open>simp add: fl white treeElevationPixelHandler_white\<close>)
  define s3 where "s3 = s0\<lparr>gridnav := Some Map.empty, ent_fow_blocker_node := Some Map.empty,
                           tools_no_wards := Some Map.empty\<rparr>"
  define r5 where "r5 = scan img 0 w h elevationPixelHandler (s3, [])"
  define sp where "sp = initialize_parse img s0"
  have ip: "sp = (fst r5)\<lparr>elevationGrid := Some (snd r5)\<rparr>"
    unfolding sp_def initialize_parse_def Let_def parseImage_def wh b2 b3 b4 tn
    by (simp add: r5_def s3_def)
  have "grid_wf []" by (simp add: grid_wf_def)
  from elevation_scan_props[OF this, of s3 img 0 w h]
  have f5: "fst r5 = s3\<lparr>elevationValues := elevationValues (fst r5)\<rparr>"
    unfolding r5_def by simp
  have t5: "tree (fst r5) = []" "ent_fow_blocker_node (fst r5) = Some Map.empty"
    by (subst f5, simp add: s3_def s0_def initialize_begin_def)+
  have z5: "\<forall>k q. map_of (snd r5) k = Some q \<longrightarrow> pt_z q = E"
    unfolding r5_def
  proof (rule scan_rule_img[where P = "\<lambda>st. \<forall>k q. map_of (snd st) k = Some q \<longrightarrow> pt_z q = E"])
    show "\<forall>k q. map_of (snd (s3, [])) k = Some q \<longrightarrow> pt_z q = E" by simp
  next
    fix x y and st :: "simulation \<times> (key \<times> zpt) list"
    assume a: "\<forall>k q. map_of (snd st) k = Some q \<longrightarrow> pt_z q = E"
      and c: "(x, y) \<in> set (scan_cells \<lfloor>w\<rfloor> \<lfloor>h\<rfloor>)"
    obtain s1 g1 where st: "st = (s1, g1)" by (cases st)
    from cell[OF c] have "img (\<lfloor>0\<rfloor> + x) y = (E, 1, 1)" by (simp add: img_def flat_image_def)
    with a show "\<forall>k q. map_of (snd (elevationPixelHandler (of_int (\<lfloor>0\<rfloor> + x) - 0) (of_int y)
                                      (img (\<lfloor>0\<rfloor> + x) y) st)) k = Some q \<longrightarrow>
                   pt_z q = E"
      by (auto simp: st elevationPixelHandler_eq update_conv')
  qed
  from loaded_instance_shape[of c img kc] obtain tw g b where
    li: "loaded_instance c img kc = sp\<lparr>treeWalls := tw, grid := g, ready := b\<rparr>"
    unfolding sp_def s0_def by blast
  have "tree (loaded_instance c img kc) = []"
    "ent_fow_blocker_node (loaded_instance c img kc) = Some Map.empty"
    "elevationGrid (loaded_instance c img kc) = Some (snd r5)"
    by (simp_all add: li ip t5)
  with z5 show ?thesis
    unfolding img_def[symmetric]
    by (auto simp: open_field_def isFowBlocker_def elevation_at_def)
qed

lemma square_card:
  fixes x y R :: int
  assumes "0 \<le> R"
  shows "card {k :: rat \<times> rat. \<exists>dx dy. k = (of_int x + of_int dx, of_int y + of_int dy) \<and>
                                  \<bar>dx\<bar> \<le> R \<and> \<bar>dy\<bar> \<le> R} = nat ((2 * R + 1) * (2 * R + 1))"
proof -
  define f :: "int \<times> int \<Rightarrow> rat \<times> rat" where "f = (\<lambda>d. (of_int x + of_int (fst d), of_int y + of_int (snd d)))"
  have "{k :: rat \<times> rat. \<exists>dx dy. k = (of_int x + of_int dx, of_int y + of_int dy) \<and>
                                  \<bar>dx\<bar> \<le> R \<and> \<bar>dy\<bar> \<le> R} = f ` ({- R..R} \<times> {- R..R})"
    by (auto simp: f_def image_iff Bex_def split_paired_Ex)
  moreover have "inj_on f ({- R..R} \<times> {- R..R})"
    by (rule inj_onI) (auto simp: f_def)
  ultimately have "card {k :: rat \<times> rat. \<exists>dx dy. k = (of_int x + of_int dx, of_int y + of_int dy) \<and>
                                  \<bar>dx\<bar> \<le> R \<and> \<bar>dy\<bar> \<le> R} = card ({- R..R} \<times> {- R..R})"
    by (simp add: card_image)
  also have "\<dots> = nat (2 * R + 1) * nat (2 * R + 1)" by (simp add: card_cartesian_product)
  also have "\<dots> = nat ((2 * R + 1) * (2 * R + 1))" using assms by (simp add: nat_mult_distrib)
  finally show ?thesis .
qed

section \<open>Visibility over an open field\<close>

text \<open>
  C8, as stated, fails for the radius 0: \<open>updateVisibility\<close> replaces a radius of 0 by the
  instance's default radius. On the flat 3 by 3 map with default radius 1, a query from the
  centre with radius 0 lights all 9 cells, and not the single cell of the radius-0 square.
\<close>

theorem open_field_radius_zero_counterexample:
  "open_field flat_instance 7 \<and> gridWidth flat_instance = 3 \<and> gridHeight flat_instance = 3 \<and>
   lightArea (state_after (updateVisibility PreciseShadowcasting_compute flat_instance 1 1 (Some 0)))
     = Some 9 \<and>
   lightArea (state_after (updateVisibility PreciseShadowcasting_compute flat_instance 1 1 (Some 0)))
     \<noteq> Some (nat (min (2 * 0 + 1) \<lfloor>gridWidth flat_instance\<rfloor> *
                   min (2 * 0 + 1) \<lfloor>gridHeight flat_instance\<rfloor>))"
proof -
  have "gridWidth flat_config = of_int 3" by (simp add: flat_config_def VisionSimulation_def)
  then have "open_field flat_instance 7"
    unfolding flat_instance_def by (rule flat_image_open_field)
  moreover have "let s = flat_instance;
        la = lightArea (state_after (updateVisibility PreciseShadowcasting_compute s 1 1 (Some 0)))
     in gridWidth s = 3 \<and> gridHeight s = 3 \<and> la = Some 9 \<and>
        la \<noteq> Some (nat (min (2 * 0 + 1) \<lfloor>gridWidth s\<rfloor> * min (2 * 0 + 1) \<lfloor>gridHeight s\<rfloor>))"
    by code_simp
  ultimately show ?thesis by (simp add: Let_def)
qed

text \<open>
  C8, amended. On a grid of integral width \<open>W\<close> and height \<open>H\<close>, in a state of a loaded
  instance that is an open field (flat, no tree, no FowBlocker cell), a query from a cell
  \<open>(x, y)\<close> of the grid with an integral radius \<open>R\<close> of at least 1 returns; the cells it
  lights are exactly the cells of the grid at Chebyshev distance at most \<open>R\<close> from
  \<open>(x, y)\<close>; and when the square of radius \<open>R\<close> around \<open>(x, y)\<close> lies inside the grid,
  \<open>lightArea\<close> is \<open>min (2 R + 1) W * min (2 R + 1) H\<close>. The field-of-view engine is the
  one modelled from the spec.
\<close>

theorem open_field_visibility:
  assumes "gridWidth c = of_int W" and "gridHeight c = of_int H"
    and "s = run compute (loaded_instance c img kc) calls"
    and "open_field s E"
    and "0 \<le> x" "x < W" "0 \<le> y" "y < H" and "1 \<le> R"
  shows "\<exists>s'. updateVisibility PreciseShadowcasting_compute s (of_int x) (of_int y) (Some (of_int R))
                = Inr s' \<and>
              (\<forall>i j. map_of (lights s') (of_int i, of_int j) =
                       (if \<bar>i - x\<bar> \<le> R \<and> \<bar>j - y\<bar> \<le> R \<and> 0 \<le> i \<and> i < W \<and> 0 \<le> j \<and> j < H
                        then Some 255 else None)) \<and>
              (R \<le> x \<and> x + R < W \<and> R \<le> y \<and> y + R < H \<longrightarrow>
                 lightArea s' = Some (nat (min (2 * R + 1) W * min (2 * R + 1) H)))"
proof -
  have ti: "terrain_inv s"
    unfolding assms(3) by (rule run_terrain_inv) (rule loaded_instance_terrain)
  have tr: "trees_inv False s"
    unfolding assms(3) by (rule run_trees_inv) (rule initialize_returns(2))
  note cells = grid_cells[OF assms(1,2,3)]
  have o: "elevation_at s (of_int x, of_int y) \<noteq> None"
    unfolding cells using assms(5-8) by blast
  define lit :: "(rat \<times> rat) set" where
    "lit = {k. (\<exists>dx dy. k = (of_int x + of_int dx, of_int y + of_int dy) \<and> \<bar>dx\<bar> \<le> R \<and> \<bar>dy\<bar> \<le> R) \<and>
               elevation_at s k \<noteq> None}"
  from updateVisibility_open[OF ti tr assms(4) o assms(9)] obtain s' where
    run: "updateVisibility PreciseShadowcasting_compute s (of_int x) (of_int y) (Some (of_int R)) = Inr s'"
    and m: "\<forall>k. map_of (lights s') k = (if k \<in> lit then Some 255 else None)"
    and la: "lightArea s' = Some (card lit)"
    unfolding lit_def by blast
  have mem: "(of_int i, of_int j) \<in> lit \<longleftrightarrow>
               \<bar>i - x\<bar> \<le> R \<and> \<bar>j - y\<bar> \<le> R \<and> 0 \<le> i \<and> i < W \<and> 0 \<le> j \<and> j < H" for i j
  proof -
    have "(\<exists>dx dy. (of_int i :: rat, of_int j :: rat) = (of_int x + of_int dx, of_int y + of_int dy) \<and>
                    \<bar>dx\<bar> \<le> R \<and> \<bar>dy\<bar> \<le> R) \<longleftrightarrow> \<bar>i - x\<bar> \<le> R \<and> \<bar>j - y\<bar> \<le> R"
    proof
      assume "\<exists>dx dy. (of_int i :: rat, of_int j :: rat) = (of_int x + of_int dx, of_int y + of_int dy) \<and>
                    \<bar>dx\<bar> \<le> R \<and> \<bar>dy\<bar> \<le> R"
      then obtain dx dy where "(of_int i :: rat) = of_int (x + dx)" "(of_int j :: rat) = of_int (y + dy)"
        "\<bar>dx\<bar> \<le> R" "\<bar>dy\<bar> \<le> R" by auto
      then have "i = x + dx" "j = y + dy" "\<bar>dx\<bar> \<le> R" "\<bar>dy\<bar> \<le> R"
        by (simp_all only: of_int_eq_iff)
      then show "\<bar>i - x\<bar> \<le> R \<and> \<bar>j - y\<bar> \<le> R" by simp
    next
      assume "\<bar>i - x\<bar> \<le> R \<and> \<bar>j - y\<bar> \<le> R"
      then have "(of_int i :: rat, of_int j :: rat) =
                   (of_int x + of_int (i - x), of_int y + of_int (j - y)) \<and>
                 \<bar>i - x\<bar> \<le> R \<and> \<bar>j - y\<bar> \<le> R" by simp
      then show "\<exists>dx dy. (of_int i :: rat, of_int j :: rat) =
                   (of_int x + of_int dx, of_int y + of_int dy) \<and> \<bar>dx\<bar> \<le> R \<and> \<bar>dy\<bar> \<le> R"
        by blast
    qed
    moreover have "elevation_at s (of_int i, of_int j) \<noteq> None \<longleftrightarrow> 0 \<le> i \<and> i < W \<and> 0 \<le> j \<and> j < H"
    proof -
      have "(\<exists>i' j'. (of_int i :: rat, of_int j :: rat) = (of_int i', of_int j') \<and>
                 0 \<le> i' \<and> i' < W \<and> 0 \<le> j' \<and> j' < H) \<longleftrightarrow> 0 \<le> i \<and> i < W \<and> 0 \<le> j \<and> j < H"
        by auto
      then show ?thesis unfolding cells .
    qed
    ultimately show ?thesis by (simp add: lit_def)
  qed
  have 1: "\<forall>i j. map_of (lights s') (of_int i, of_int j) =
                       (if \<bar>i - x\<bar> \<le> R \<and> \<bar>j - y\<bar> \<le> R \<and> 0 \<le> i \<and> i < W \<and> 0 \<le> j \<and> j < H
                        then Some 255 else None)"
    using m mem by simp
  have 2: "lightArea s' = Some (nat (min (2 * R + 1) W * min (2 * R + 1) H))"
    if u: "R \<le> x \<and> x + R < W \<and> R \<le> y \<and> y + R < H"
  proof -
    have "lit = {k. \<exists>dx dy. k = (of_int x + of_int dx, of_int y + of_int dy) \<and> \<bar>dx\<bar> \<le> R \<and> \<bar>dy\<bar> \<le> R}"
    proof -
      have "elevation_at s (of_int x + of_int dx, of_int y + of_int dy) \<noteq> None"
        if "\<bar>dx\<bar> \<le> R" "\<bar>dy\<bar> \<le> R" for dx dy
      proof -
        from that u have "0 \<le> x + dx \<and> x + dx < W \<and> 0 \<le> y + dy \<and> y + dy < H" by arith
        then have "elevation_at s (of_int (x + dx), of_int (y + dy)) \<noteq> None"
          unfolding cells by blast
        then show ?thesis by simp
      qed
      then show ?thesis unfolding lit_def by blast
    qed
    with la have "lightArea s' = Some (nat ((2 * R + 1) * (2 * R + 1)))"
      using assms(9) by (simp add: square_card)
    moreover from u have "min (2 * R + 1) W = 2 * R + 1" "min (2 * R + 1) H = 2 * R + 1"
      by simp_all
    ultimately show ?thesis by simp
  qed
  from run 1 2 show ?thesis by blast
qed

theorem open_field_visibility_witness:
  "open_field flat_instance 7 \<and>
   lightArea (state_after (updateVisibility PreciseShadowcasting_compute flat_instance 1 1 (Some 1)))
     = Some 9 \<and>
   (\<exists>s'. updateVisibility PreciseShadowcasting_compute flat_instance 1 1 (Some 1) = Inr s' \<and>
          map_of (lights s') (0, 2) = Some 255 \<and> lightArea s' = Some 9) \<and>
   (\<exists>s'. updateVisibility PreciseShadowcasting_compute
            (loaded_instance (VisionSimulation 0 0 16576 16576 None) (flat_image 260 0) Map.empty)
            130 130 (Some 5) = Inr s' \<and>
          lightArea s' = Some 121)"
proof -
  have w: "gridWidth flat_config = of_int 3" "gridHeight flat_config = of_int 3"
    by (simp_all add: flat_config_def VisionSimulation_def)
  have op: "open_field flat_instance 7"
    unfolding flat_instance_def by (rule flat_image_open_field[OF w(1)])
  have r: "flat_instance = run PreciseShadowcasting_compute
             (loaded_instance flat_config (flat_image 3 7) Map.empty) []"
    by (simp add: run_def flat_instance_def)
  from open_field_visibility[OF w r op, of 1 1 1] obtain s' where
    a: "updateVisibility PreciseShadowcasting_compute flat_instance 1 1 (Some 1) = Inr s'"
    and b: "\<forall>i j. map_of (lights s') (of_int i, of_int j) =
                       (if \<bar>i - 1\<bar> \<le> 1 \<and> \<bar>j - 1\<bar> \<le> 1 \<and> 0 \<le> i \<and> i < 3 \<and> 0 \<le> j \<and> j < 3
                        then Some 255 else None)"
    and c: "lightArea s' = Some 9"
    by auto
  from b[rule_format, of 0 2] have "map_of (lights s') (0, 2) = Some 255" by simp
  with a c have 1: "\<exists>s'. updateVisibility PreciseShadowcasting_compute flat_instance 1 1 (Some 1) = Inr s' \<and>
          map_of (lights s') (0, 2) = Some 255 \<and> lightArea s' = Some 9" by blast
  have e: "lightArea (state_after (updateVisibility PreciseShadowcasting_compute flat_instance 1 1
             (Some 1))) = Some 9"
    by code_simp
  define big where "big = VisionSimulation 0 0 16576 16576 None"
  define field where "field = loaded_instance big (flat_image 260 0) Map.empty"
  have W: "gridWidth big = of_int 260" "gridHeight big = of_int 260"
    by (simp_all add: big_def VisionSimulation_def)
  have opb: "open_field field 0"
    unfolding field_def by (rule flat_image_open_field[OF W(1)])
  have rb: "field = run PreciseShadowcasting_compute
              (loaded_instance big (flat_image 260 0) Map.empty) []"
    by (simp add: run_def field_def)
  from open_field_visibility[OF W rb opb, of 130 130 5] obtain s'' where
    "updateVisibility PreciseShadowcasting_compute field 130 130 (Some 5) = Inr s''"
    "lightArea s'' = Some 121"
    by auto
  then have 2: "\<exists>s'. updateVisibility PreciseShadowcasting_compute
            (loaded_instance (VisionSimulation 0 0 16576 16576 None) (flat_image 260 0) Map.empty)
            130 130 (Some 5) = Inr s' \<and> lightArea s' = Some 121"
    unfolding field_def big_def by blast
  from op e 1 2 show ?thesis by blast
qed

section \<open>A query from a cell outside the grid\<close>

text \<open>
  C7, as stated, fails: the code has no InvalidOrigin condition. A query of the small map
  from the cell (3, 1), which has no elevation entry, throws the TypeError of reading
  \<open>z\<close> of \<open>undefined\<close>; a query on an instance that is not ready throws the very same
  error, from a cell that is on the grid once the map is loaded. Nothing in what is thrown
  says that the origin is at fault.
\<close>

theorem invalid_origin_counterexample:
  "ready example_lit \<and> elevation_at example_lit (3, 1) = None \<and>
   updateVisibility PreciseShadowcasting_compute example_lit 3 1 (Some 1) =
     Inl (TypeError, example_lit) \<and>
   \<not> ready (initialize_begin example_config) \<and>
   updateVisibility PreciseShadowcasting_compute (initialize_begin example_config) 1 1 (Some 1) =
     Inl (TypeError, initialize_begin example_config)"
proof -
  have "let s = example_lit in ready s \<and> elevation_at s (3, 1) = None" by code_simp
  then have h: "ready example_lit" "elevation_at example_lit (3, 1) = None"
    by (simp_all add: Let_def)
  from h(2) have "elevation_at example_lit (xy2key 3 1) = None" by (simp add: xy2key_def)
  from updateVisibility_no_entry[OF this]
  have "updateVisibility PreciseShadowcasting_compute example_lit 3 1 (Some 1) =
          Inl (TypeError, example_lit)" .
  moreover have "\<not> ready (initialize_begin example_config) \<and>
    updateVisibility PreciseShadowcasting_compute (initialize_begin example_config) 1 1 (Some 1) =
     Inl (TypeError, initialize_begin example_config)"
    by (simp add: updateVisibility_def initialize_begin_def)
  ultimately show ?thesis using h by blast
qed

text \<open>
  C7, amended. On every instance and with every engine, \<open>updateVisibility\<close> from a cell
  that has no entry in the elevation grid throws a TypeError (reading \<open>z\<close> of
  \<open>undefined\<close>, line 362) before it assigns anything: the instance, with its light map,
  its active elevation and its caches, is left exactly as it was. The error is not particular
  to the origin: on an instance whose \<open>initialize\<close> has not succeeded every call throws the
  same TypeError. From a cell that has an entry the call goes past that line: afterwards the
  active elevation is that of the cell and \<open>walls\<close> refers to the tree walls of that
  elevation.
\<close>

theorem invalid_origin_TypeError:
  "(elevation_at s (gX, gY) = None \<longrightarrow>
      updateVisibility compute s gX gY rad = Inl (TypeError, s)) \<and>
   updateVisibility compute (initialize_begin c) gX gY rad = Inl (TypeError, initialize_begin c) \<and>
   (\<forall>E. elevation_at s (gX, gY) = Some E \<longrightarrow>
      elevation (state_after (updateVisibility compute s gX gY rad)) = Some E \<and>
      walls (state_after (updateVisibility compute s gX gY rad)) = TreeWallsOf E)"
proof -
  have 1: "updateVisibility compute s gX gY rad = Inl (TypeError, s)"
    if "elevation_at s (gX, gY) = None"
    by (rule updateVisibility_no_entry) (simp add: xy2key_def that)
  have 2: "updateVisibility compute (initialize_begin c) gX gY rad =
             Inl (TypeError, initialize_begin c)"
    by (simp add: updateVisibility_def initialize_begin_def)
  have 3: "elevation (state_after (updateVisibility compute s gX gY rad)) = Some E \<and>
           walls (state_after (updateVisibility compute s gX gY rad)) = TreeWallsOf E"
    if "elevation_at s (gX, gY) = Some E" for E
  proof -
    from that obtain eg p where eg: "elevationGrid s = Some eg"
      and p: "map_of eg (gX, gY) = Some p" and z: "pt_z p = E"
      by (auto elim: elevation_at_SomeD)
    define s1 where "s1 = state_after (updateVisibility compute s gX gY rad)"
    from updateVisibility_state[OF eg p, of compute rad] obtain l a la where
      "s1 = (updateVisibility_begin s eg (pt_z p))\<lparr>lights := l, area := a, lightArea := la\<rparr>"
      unfolding s1_def by blast
    then have "elevation s1 = Some E" "walls s1 = TreeWallsOf E"
      by (simp_all add: updateVisibility_begin_def z)
    then show ?thesis unfolding s1_def by simp
  qed
  from 1 2 3 show ?thesis by blast
qed

theorem invalid_origin_TypeError_witness:
  "elevation_at example_lit (3, 1) = None \<and>
   updateVisibility PreciseShadowcasting_compute example_lit 3 1 (Some 1) =
     Inl (TypeError, example_lit) \<and>
   elevation_at example_lit (0, 2) = Some 10 \<and>
   elevation (state_after (updateVisibility PreciseShadowcasting_compute example_lit 0 2 (Some 1)))
     = Some 10 \<and>
   walls (state_after (updateVisibility PreciseShadowcasting_compute example_lit 0 2 (Some 1)))
     = TreeWallsOf 10"
proof -
  have "let s = example_lit in elevation_at s (3, 1) = None \<and> elevation_at s (0, 2) = Some 10"
    by code_simp
  then have h: "elevation_at example_lit (3, 1) = None" "elevation_at example_lit (0, 2) = Some 10"
    by (simp_all add: Let_def)
  from invalid_origin_TypeError[of example_lit 3 1 PreciseShadowcasting_compute "Some 1"
      example_config] h(1)
  have a: "updateVisibility PreciseShadowcasting_compute example_lit 3 1 (Some 1) =
             Inl (TypeError, example_lit)" by blast
  from invalid_origin_TypeError[of example_lit 0 2 PreciseShadowcasting_compute "Some 1"
      example_config] h(2)
  have "elevation (state_after (updateVisibility PreciseShadowcasting_compute example_lit 0 2
          (Some 1))) = Some 10 \<and>
        walls (state_after (updateVisibility PreciseShadowcasting_compute example_lit 0 2
          (Some 1))) = TreeWallsOf 10" by blast
  with h a show ?thesis by blast
qed

section \<open>The point cache\<close>










end
